theory Spec2Isabelle
  imports Main "HOL-Library.AList"
begin

section \<open>The element tree\<close>

text \<open>
  The script works on \<^verbatim>\<open>xml.etree.ElementTree\<close> elements. An element has a tag, an
  attribute dictionary (insertion ordered, so an association list), an optional text, an
  optional tail and a list of child elements. Strings are lists of characters, each
  character standing for one code point below 256.
\<close>

datatype element =
  Element (tag: string) (attrib: "(string \<times> string) list")
    (text_of: "string option") (tail: "string option") (children: "element list")

text \<open>\<^verbatim>\<open>elem.get(key)\<close>: the attribute's value, or Python's None.\<close>

definition get :: "element \<Rightarrow> string \<Rightarrow> string option" where
  "get e k = map_of (attrib e) k"

text \<open>\<^verbatim>\<open>elem.set(key, value)\<close>: overwrite in place, or add the key last.\<close>

definition set_attr :: "element \<Rightarrow> string \<Rightarrow> string \<Rightarrow> element" where
  "set_attr e k v =
     Element (tag e) (AList.update k v (attrib e)) (text_of e) (tail e) (children e)"

text \<open>\<^verbatim>\<open>elem.append(child)\<close>.\<close>

definition append :: "element \<Rightarrow> element \<Rightarrow> element" where
  "append e c = Element (tag e) (attrib e) (text_of e) (tail e) (children e @ [c])"

definition set_children :: "element \<Rightarrow> element list \<Rightarrow> element" where
  "set_children e cs = Element (tag e) (attrib e) (text_of e) (tail e) cs"

text \<open>\<^verbatim>\<open>elem.findall(t)\<close> with a plain tag: the direct children carrying that tag.\<close>

definition findall :: "element \<Rightarrow> string \<Rightarrow> element list" where
  "findall e t = filter (\<lambda>c. tag c = t) (children e)"

section \<open>Python's string functions\<close>

text \<open>
  \<^verbatim>\<open>str.strip()\<close> removes the white space at both ends. Below 256 the code points
  Python counts as white space are 9 to 13, 28 to 32, 133 and 160.
\<close>

definition is_space :: "char \<Rightarrow> bool" where
  "is_space c \<longleftrightarrow>
     (let n = (of_char c :: nat)
      in (9 \<le> n \<and> n \<le> 13) \<or> (28 \<le> n \<and> n \<le> 32) \<or> n = 133 \<or> n = 160)"

definition strip :: "string \<Rightarrow> string" where
  "strip s = rev (dropWhile is_space (rev (dropWhile is_space s)))"

definition is_digit :: "char \<Rightarrow> bool" where
  "is_digit c \<longleftrightarrow> (48 \<le> (of_char c :: nat) \<and> (of_char c :: nat) \<le> 57)"

definition digit_val :: "char \<Rightarrow> nat" where
  "digit_val c = (of_char c :: nat) - 48"

text \<open>
  \<^verbatim>\<open>int(s)\<close> in base ten: white space at both ends, an optional sign, then decimal
  digits, where a single underscore may stand between two digits. Anything else is
  ValueError, here None. The white space \<^verbatim>\<open>int\<close> skips is narrower than that of
  \<^verbatim>\<open>strip\<close>: below 256 it is 9 to 13, 32, 133 and 160, the code points 28 to 31
  are refused. The interpreter also refuses, with ValueError, a string of more than
  \<^verbatim>\<open>sys.get_int_max_str_digits()\<close> digits, 4300 unless it was changed; leading
  zeros count, the sign, the underscores and the white space do not.
\<close>

definition max_str_digits :: nat where
  "max_str_digits = 4300"

definition is_int_space :: "char \<Rightarrow> bool" where
  "is_int_space c \<longleftrightarrow>
     (let n = (of_char c :: nat)
      in (9 \<le> n \<and> n \<le> 13) \<or> n = 32 \<or> n = 133 \<or> n = 160)"

definition int_strip :: "string \<Rightarrow> string" where
  "int_strip s = rev (dropWhile is_int_space (rev (dropWhile is_int_space s)))"

fun parse_digits :: "nat \<Rightarrow> string \<Rightarrow> nat option" where
  "parse_digits acc [] = Some acc"
| "parse_digits acc [c] =
     (if is_digit c then Some (acc * 10 + digit_val c) else None)"
| "parse_digits acc (c # d # cs) =
     (if is_digit c then parse_digits (acc * 10 + digit_val c) (d # cs)
      else if c = CHR ''_'' \<and> is_digit d then parse_digits (acc * 10 + digit_val d) cs
      else None)"

definition parse_nat :: "string \<Rightarrow> nat option" where
  "parse_nat s =
     (case s of
        [] \<Rightarrow> None
      | c # cs \<Rightarrow> if is_digit c then parse_digits (digit_val c) cs else None)"

definition py_int :: "string \<Rightarrow> int option" where
  "py_int s =
     (let t = int_strip s
      in if max_str_digits < length (filter is_digit t) then None
         else
           (case t of
              [] \<Rightarrow> None
            | c # cs \<Rightarrow>
                if c = CHR ''-'' then map_option (\<lambda>n. - int n) (parse_nat cs)
                else if c = CHR ''+'' then map_option int (parse_nat cs)
                else map_option int (parse_nat (c # cs))))"

text \<open>
  \<^verbatim>\<open>str(n)\<close> for an integer: decimal digits, a minus sign when negative. Under the
  same limit \<^verbatim>\<open>str\<close> raises ValueError, here None, for an integer of more than
  4300 digits.
\<close>

fun str_nat :: "nat \<Rightarrow> string" where
  "str_nat n =
     (if n < 10 then [char_of (48 + n)]
      else str_nat (n div 10) @ [char_of (48 + n mod 10)])"

declare str_nat.simps [simp del]

definition decimal :: "int \<Rightarrow> string" where
  "decimal i = (if i < 0 then CHR ''-'' # str_nat (nat (- i)) else str_nat (nat i))"

definition str :: "int \<Rightarrow> string option" where
  "str i =
     (if max_str_digits < length (str_nat (nat \<bar>i\<bar>)) then None else Some (decimal i))"

section \<open>Names of a channel\<close>

text \<open>
  \<^verbatim>\<open>get_all_names\<close> returns a Python set, and the script iterates over it. The order
  in which a set yields its members is not fixed by the language, so the model takes it
  as a parameter: a function from the list of members, in the order they were added, to
  the order of iteration. A valid order yields every member exactly once.
\<close>

type_synonym set_order = "string list \<Rightarrow> string list"

definition valid_order :: "set_order \<Rightarrow> bool" where
  "valid_order iter \<longleftrightarrow> (\<forall>xs. set (iter xs) = set xs \<and> distinct (iter xs))"

definition name_texts :: "element \<Rightarrow> string list" where
  "name_texts ch =
     concat (map (\<lambda>dn. case text_of dn of
                          None \<Rightarrow> []
                        | Some t \<Rightarrow> if t = [] then [] else [strip t])
                 (findall ch ''display-name''))"

definition get_all_names :: "set_order \<Rightarrow> element \<Rightarrow> string list" where
  "get_all_names iter ch = iter (name_texts ch)"

section \<open>Files and messages\<close>

datatype input_file = Missing | Unparseable | Document element

datatype message =
    Merging "string list" string
  | FileNotFound string
  | ParseFailed string
  | ChannelNotFound "string option"
  | MergeDone string
  | NotGenerated string

datatype error = AttributeError | ValueError | FileNotFoundError | DanglingReference

type_synonym failure = "error \<times> message list"

text \<open>\<^verbatim>\<open>parse_tree\<close>: the parsed root, or None with a warning.\<close>

definition parse_tree :: "(string \<Rightarrow> input_file) \<Rightarrow> string \<Rightarrow> message list \<times> element option" where
  "parse_tree fs path =
     (case fs path of
        Missing \<Rightarrow> ([FileNotFound path], None)
      | Unparseable \<Rightarrow> ([ParseFailed path], None)
      | Document root \<Rightarrow> ([], Some root))"

section \<open>The state of one merge\<close>

text \<open>
  The local variables of \<^verbatim>\<open>merge_files\<close>. The values of \<^verbatim>\<open>name_map\<close> are
  references to channel elements that are children of \<^verbatim>\<open>base_root\<close>; the script
  mutates a channel through such a reference and the tree sees the change. Channel
  children of the root are never removed and new ones are only appended, so a reference
  is modelled as the position of the channel among the channel children of the root.
  A key of \<^verbatim>\<open>id_map\<close> is whatever \<^verbatim>\<open>ch.get("id")\<close> returned, None included, and
  so is a value.
\<close>

record merge_state =
  base_root :: "element option"
  name_map :: "string \<rightharpoonup> nat"
  id_map :: "string option \<rightharpoonup> string option"
  max_id :: int
  programmes_map :: "string \<rightharpoonup> element list"
  log :: "message list"

definition init_state :: "message list \<Rightarrow> merge_state" where
  "init_state msgs =
     \<lparr>base_root = None, name_map = Map.empty, id_map = Map.empty, max_id = 0,
      programmes_map = Map.empty, log = msgs\<rparr>"

text \<open>The channel a reference points to, and a mutation through a reference.\<close>

definition deref :: "element \<Rightarrow> nat \<Rightarrow> element option" where
  "deref root k =
     (let chs = findall root ''channel'' in if k < length chs then Some (chs ! k) else None)"

fun update_channel :: "nat \<Rightarrow> (element \<Rightarrow> element) \<Rightarrow> element list \<Rightarrow> element list" where
  "update_channel k f [] = []"
| "update_channel k f (c # cs) =
     (if tag c = ''channel''
      then (case k of 0 \<Rightarrow> f c # cs | Suc j \<Rightarrow> c # update_channel j f cs)
      else c # update_channel k f cs)"

definition index_names :: "nat \<Rightarrow> string list \<Rightarrow> (string \<rightharpoonup> nat) \<Rightarrow> (string \<rightharpoonup> nat)" where
  "index_names k names m = fold (\<lambda>n m. m(n \<mapsto> k)) names m"

section \<open>Ingesting the base document\<close>

text \<open>
  Lines 84 to 94: one round of the loop over the channels of the base document. The
  number \<open>k\<close> is the position of \<open>ch\<close> among the channels of the root.
\<close>

definition ingest_channel :: "set_order \<Rightarrow> nat \<Rightarrow> element \<Rightarrow> merge_state \<Rightarrow> merge_state" where
  "ingest_channel iter k ch st =
     (case get ch ''id'' of
        None \<Rightarrow> st
      | Some cid \<Rightarrow>
          if cid = [] then st
          else st\<lparr>name_map := index_names k (get_all_names iter ch) (name_map st),
                  max_id := (case py_int cid of
                               Some v \<Rightarrow> max (max_id st) v
                             | None \<Rightarrow> max_id st),
                  programmes_map := (programmes_map st)(cid \<mapsto> [])\<rparr>)"

fun ingest_channels ::
  "set_order \<Rightarrow> nat \<Rightarrow> element list \<Rightarrow> merge_state \<Rightarrow> merge_state" where
  "ingest_channels iter k [] st = st"
| "ingest_channels iter k (ch # chs) st =
     ingest_channels iter (Suc k) chs (ingest_channel iter k ch st)"

text \<open>Lines 97 to 100: a programme of the base document is kept when its channel is known.\<close>

definition collect_programme ::
  "element \<Rightarrow> (string \<rightharpoonup> element list) \<Rightarrow> (string \<rightharpoonup> element list)" where
  "collect_programme p pm =
     (case get p ''channel'' of
        None \<Rightarrow> pm
      | Some ch_id \<Rightarrow>
          (case pm ch_id of
             None \<Rightarrow> pm
           | Some ps \<Rightarrow> pm(ch_id \<mapsto> ps @ [p])))"

text \<open>Lines 101, 102, 155 and 156: every programme child is taken off the root.\<close>

definition remove_programmes :: "element \<Rightarrow> element" where
  "remove_programmes root =
     set_children root (filter (\<lambda>c. tag c \<noteq> ''programme'') (children root))"

text \<open>
  Lines 74 to 82, the attributes set on the root, and lines 71 to 103 as a whole. The
  date string is the clock's reading when line 80 runs, a parameter here.
\<close>

definition stamp_root :: "string \<Rightarrow> element \<Rightarrow> element" where
  "stamp_root date_str root =
     (let root1 = set_attr root ''generator-info-name'' ''tvsilo.vip'';
          root2 = set_attr root1 ''generator-info-url'' ''https://github.com/g12777/TV''
      in set_attr root2 ''date'' date_str)"

definition ingest_base :: "set_order \<Rightarrow> string \<Rightarrow> element \<Rightarrow> merge_state \<Rightarrow> merge_state" where
  "ingest_base iter date_str root st =
     (let root3 = stamp_root date_str root;
          st1 = ingest_channels iter 0 (findall root3 ''channel'') st;
          pm = fold collect_programme (findall root3 ''programme'') (programmes_map st1)
      in st1\<lparr>base_root := Some (remove_programmes root3), programmes_map := pm\<rparr>)"

section \<open>Merging a further document\<close>

text \<open>Lines 112 to 116: the first name, in the set's order, that the index knows.\<close>

fun find_target :: "(string \<rightharpoonup> nat) \<Rightarrow> string list \<Rightarrow> nat option" where
  "find_target nm [] = None"
| "find_target nm (n # ns) =
     (case nm n of Some k \<Rightarrow> Some k | None \<Rightarrow> find_target nm ns)"

definition display_name :: "string \<Rightarrow> element" where
  "display_name n = Element ''display-name'' [] (Some n) None []"

text \<open>
  Lines 120 to 125: the names of the incoming channel that the target does not carry
  yet, and the target with a display-name child appended for each of them.
\<close>

definition fresh_names :: "set_order \<Rightarrow> element \<Rightarrow> element \<Rightarrow> string list" where
  "fresh_names iter ch target_ch =
     (let existing_names = get_all_names iter target_ch
      in filter (\<lambda>n. n \<notin> set existing_names) (get_all_names iter ch))"

definition add_names :: "string list \<Rightarrow> element \<Rightarrow> element" where
  "add_names ns target_ch = fold (\<lambda>n t. append t (display_name n)) ns target_ch"

text \<open>
  Lines 106 to 139: one round of the loop over the channels of a further document. For a
  new channel line 131 raises ValueError when the counter has outgrown \<^verbatim>\<open>str\<close>,
  and with no base root line 133 raises AttributeError. A reference of the index always
  points to a channel of the root; the model returns DanglingReference where it would
  not.
\<close>

definition merge_channel ::
  "set_order \<Rightarrow> element \<Rightarrow> merge_state \<Rightarrow> failure + merge_state" where
  "merge_channel iter ch st =
     (let ch_names = get_all_names iter ch
      in if ch_names = [] then Inr st
         else
           let old_id = get ch ''id''
           in case find_target (name_map st) ch_names of
                Some k \<Rightarrow>
                  (case base_root st of
                     None \<Rightarrow> Inl (DanglingReference, log st)
                   | Some root \<Rightarrow>
                       (case deref root k of
                          None \<Rightarrow> Inl (DanglingReference, log st)
                        | Some target_ch \<Rightarrow>
                            let fresh = fresh_names iter ch target_ch;
                                root' = set_children root
                                  (update_channel k (add_names fresh) (children root));
                                new_id = get target_ch ''id''
                            in Inr (st\<lparr>base_root := Some root',
                                       name_map := index_names k fresh (name_map st),
                                       id_map := (id_map st)(old_id \<mapsto> new_id)\<rparr>)))
              | None \<Rightarrow>
                  (let m = max_id st + 1
                   in case str m of
                        None \<Rightarrow> Inl (ValueError, log st)
                      | Some new_id \<Rightarrow>
                          (let ch' = set_attr ch ''id'' new_id
                           in case base_root st of
                                None \<Rightarrow> Inl (AttributeError, log st)
                              | Some root \<Rightarrow>
                                  Inr (st\<lparr>base_root := Some (append root ch'),
                                          name_map :=
                                            index_names (length (findall root ''channel''))
                                              ch_names (name_map st),
                                          id_map := (id_map st)(old_id \<mapsto> Some new_id),
                                          max_id := m,
                                          programmes_map :=
                                            (programmes_map st)(new_id \<mapsto> [])\<rparr>))))"

fun merge_channels ::
  "set_order \<Rightarrow> element list \<Rightarrow> merge_state \<Rightarrow> failure + merge_state" where
  "merge_channels iter [] st = Inr st"
| "merge_channels iter (ch # chs) st =
     (case merge_channel iter ch st of
        Inl e \<Rightarrow> Inl e
      | Inr st' \<Rightarrow> merge_channels iter chs st')"

text \<open>
  Lines 142 to 151: one round of the loop over the programmes of a further document.
  \<^verbatim>\<open>id_map.get\<close> gives None for a key that is absent; \<^verbatim>\<open>not new_ch_id\<close> holds for
  None and for the empty string.
\<close>

definition remap_programme :: "element \<Rightarrow> merge_state \<Rightarrow> merge_state" where
  "remap_programme p st =
     (let old_ch_id = get p ''channel'';
          new_ch_id = (case id_map st old_ch_id of None \<Rightarrow> None | Some v \<Rightarrow> v)
      in case new_ch_id of
           None \<Rightarrow> st\<lparr>log := log st @ [ChannelNotFound old_ch_id]\<rparr>
         | Some new \<Rightarrow>
             if new = [] then st\<lparr>log := log st @ [ChannelNotFound old_ch_id]\<rparr>
             else
               let p' = set_attr p ''channel'' new;
                   pm = (case programmes_map st new of
                           None \<Rightarrow> (programmes_map st)(new \<mapsto> [])
                         | Some ps \<Rightarrow> programmes_map st);
                   ps = (case pm new of None \<Rightarrow> [] | Some ps \<Rightarrow> ps)
               in st\<lparr>programmes_map := pm(new \<mapsto> ps @ [p'])\<rparr>)"

definition remap_programmes :: "element list \<Rightarrow> merge_state \<Rightarrow> merge_state" where
  "remap_programmes ps st = fold remap_programme ps st"

text \<open>Lines 105 to 151: a further document, its channels and then its programmes.\<close>

definition merge_document ::
  "set_order \<Rightarrow> element \<Rightarrow> merge_state \<Rightarrow> failure + merge_state" where
  "merge_document iter root st =
     (case merge_channels iter (findall root ''channel'') st of
        Inl e \<Rightarrow> Inl e
      | Inr st' \<Rightarrow> Inr (remap_programmes (findall root ''programme'') st'))"

text \<open>Lines 65 to 151: the loop over the input files, \<open>idx\<close> counting from zero.\<close>

fun merge_loop ::
  "set_order \<Rightarrow> (string \<Rightarrow> input_file) \<Rightarrow> string \<Rightarrow> nat \<Rightarrow> string list \<Rightarrow> merge_state
     \<Rightarrow> failure + merge_state" where
  "merge_loop iter fs date_str idx [] st = Inr st"
| "merge_loop iter fs date_str idx (f # rest) st =
     (case parse_tree fs f of
        (msgs, None) \<Rightarrow>
          merge_loop iter fs date_str (Suc idx) rest (st\<lparr>log := log st @ msgs\<rparr>)
      | (msgs, Some root) \<Rightarrow>
          if idx = 0
          then merge_loop iter fs date_str (Suc idx) rest
                 (ingest_base iter date_str root (st\<lparr>log := log st @ msgs\<rparr>))
          else (case merge_document iter root (st\<lparr>log := log st @ msgs\<rparr>) of
                  Inl e \<Rightarrow> Inl e
                | Inr st' \<Rightarrow> merge_loop iter fs date_str (Suc idx) rest st'))"

section \<open>Putting the programmes back\<close>

text \<open>
  \<^verbatim>\<open>list(base_root).index(ch)\<close> for the channel \<open>ch\<close> that is the \<open>k\<close>-th channel child:
  its position among all children.
\<close>

fun index_of_channel :: "nat \<Rightarrow> element list \<Rightarrow> nat" where
  "index_of_channel k [] = 0"
| "index_of_channel k (c # cs) =
     (if tag c = ''channel''
      then (case k of 0 \<Rightarrow> 0 | Suc j \<Rightarrow> Suc (index_of_channel j cs))
      else Suc (index_of_channel k cs))"

text \<open>\<^verbatim>\<open>list.insert(i, x)\<close> for \<open>i\<close> not negative; past the end it appends.\<close>

definition insert_at :: "nat \<Rightarrow> 'a \<Rightarrow> 'a list \<Rightarrow> 'a list" where
  "insert_at i x xs = take i xs @ x # drop i xs"

fun insert_programmes :: "nat \<Rightarrow> element list \<Rightarrow> element list \<Rightarrow> element list" where
  "insert_programmes insert_pos [] xs = xs"
| "insert_programmes insert_pos (p # ps) xs =
     insert_programmes (insert_pos + 1) ps (insert_at insert_pos p xs)"

text \<open>\<^verbatim>\<open>programmes_map.get(cid, [])\<close>, where \<open>cid\<close> may be None.\<close>

definition programmes_of :: "(string \<rightharpoonup> element list) \<Rightarrow> string option \<Rightarrow> element list" where
  "programmes_of pm cid =
     (case cid of
        None \<Rightarrow> []
      | Some c \<Rightarrow> (case pm c of None \<Rightarrow> [] | Some ps \<Rightarrow> ps))"

text \<open>
  Lines 159 to 164. The loop runs over the channels found before it starts; \<open>k\<close> is
  the position of the head of that list among the channels of the root.
\<close>

fun reinsert ::
  "(string \<rightharpoonup> element list) \<Rightarrow> nat \<Rightarrow> element list \<Rightarrow> element list \<Rightarrow> element list" where
  "reinsert pm k [] xs = xs"
| "reinsert pm k (ch # chs) xs =
     (let cid = get ch ''id'';
          insert_pos = index_of_channel k xs + 1
      in reinsert pm (Suc k) chs (insert_programmes insert_pos (programmes_of pm cid) xs))"

text \<open>Lines 155 to 164; with no base root line 155 raises AttributeError.\<close>

definition reassemble :: "merge_state \<Rightarrow> failure + merge_state" where
  "reassemble st =
     (case base_root st of
        None \<Rightarrow> Inl (AttributeError, log st)
      | Some root \<Rightarrow>
          let root1 = remove_programmes root;
              root2 = set_children root1
                (reinsert (programmes_map st) 0 (findall root1 ''channel'') (children root1))
          in Inr (st\<lparr>base_root := Some root2\<rparr>))"

section \<open>One merge group, and all of them\<close>

text \<open>
  \<^verbatim>\<open>os.path.dirname\<close>: the path up to its last slash, without the slashes that end
  this part unless it is made of slashes only. It is empty exactly when the path holds no
  slash.
\<close>

definition dirname :: "string \<Rightarrow> string" where
  "dirname p =
     (let head = rev (dropWhile (\<lambda>c. c \<noteq> CHR ''/'') (rev p))
      in if head \<noteq> [] \<and> \<not> list_all (\<lambda>c. c = CHR ''/'') head
         then rev (dropWhile (\<lambda>c. c = CHR ''/'') (rev head))
         else head)"

text \<open>
  \<^verbatim>\<open>merge_files\<close>: the messages printed and the file written, or the exception
  that escapes and the messages printed before it. The file written is given as its path
  and the tree as it stands when line 169 is reached; the indentation and the
  serialisation of lines 169 and 170 are not modelled. Line 168 hands the directory part
  of the output path to \<^verbatim>\<open>os.makedirs\<close>, which raises FileNotFoundError for the
  empty path, so an output path without a slash ends the merge there, with nothing
  written and no closing message. For every other path the directory is taken to be
  there or creatable and the file writable.
\<close>

definition merge_files ::
  "set_order \<Rightarrow> (string \<Rightarrow> input_file) \<Rightarrow> string \<Rightarrow> string \<Rightarrow> string list
     \<Rightarrow> failure + (message list \<times> (string \<times> element) option)" where
  "merge_files iter fs date_str output_file input_files =
     (case merge_loop iter fs date_str 0 input_files
             (init_state [Merging input_files output_file]) of
        Inl e \<Rightarrow> Inl e
      | Inr st \<Rightarrow>
          (case reassemble st of
             Inl e \<Rightarrow> Inl e
           | Inr st' \<Rightarrow>
               (case base_root st' of
                  Some root \<Rightarrow>
                    if dirname output_file = [] then Inl (FileNotFoundError, log st')
                    else Inr (log st' @ [MergeDone output_file], Some (output_file, root))
                | None \<Rightarrow> Inr (log st' @ [NotGenerated output_file], None))))"

definition MERGES :: "(string \<times> string list) list" where
  "MERGES =
     [(''epg/1d.xml'', [''epg/e.xml'', ''epg/plsy1_1d.xml'', ''epg/112114.xml'']),
      (''epg/7d.xml'', [''epg/all.xml'', ''epg/plsy1_7d.xml''])]"

text \<open>
  \<^verbatim>\<open>main\<close> over a list of groups: the messages and the files written so far; an
  exception of one group ends the run. No group of \<open>MERGES\<close> reads a path that another
  writes, so the files read stay as they were.
\<close>

fun run_merges ::
  "set_order \<Rightarrow> (string \<Rightarrow> input_file) \<Rightarrow> string \<Rightarrow> (string \<times> string list) list
     \<Rightarrow> message list \<times> (string \<times> element) list
     \<Rightarrow> failure + (message list \<times> (string \<times> element) list)" where
  "run_merges iter fs date_str [] acc = Inr acc"
| "run_merges iter fs date_str ((out_file, ins) # groups) (msgs, written) =
     (case merge_files iter fs date_str out_file ins of
        Inl (e, printed) \<Rightarrow> Inl (e, msgs @ printed)
      | Inr (printed, w) \<Rightarrow>
          run_merges iter fs date_str groups
            (msgs @ printed, written @ (case w of None \<Rightarrow> [] | Some x \<Rightarrow> [x])))"

definition main :: "set_order \<Rightarrow> (string \<Rightarrow> input_file) \<Rightarrow> string
     \<Rightarrow> failure + (message list \<times> (string \<times> element) list)" where
  "main iter fs date_str = run_merges iter fs date_str MERGES ([], [])"

section \<open>Notions the properties are stated with\<close>

text \<open>
  The new id a programme is sent to by lines 143 to 145, or None when the script warns
  and drops it.
\<close>

definition resolved_id :: "(string option \<rightharpoonup> string option) \<Rightarrow> element \<Rightarrow> string option" where
  "resolved_id im p =
     (case im (get p ''channel'') of
        None \<Rightarrow> None
      | Some None \<Rightarrow> None
      | Some (Some new) \<Rightarrow> if new = [] then None else Some new)"

text \<open>The ids line 94 makes keys of \<^verbatim>\<open>programmes_map\<close>: the non-empty ids of the base channels.\<close>

definition base_ids :: "element \<Rightarrow> string set" where
  "base_ids root =
     {cid. cid \<noteq> [] \<and> (\<exists>ch\<in>set (findall root ''channel''). get ch ''id'' = Some cid)}"

text \<open>
  What the merge may do to an element it keeps: append display-name children, nothing
  else.
\<close>

definition grown :: "element \<Rightarrow> element \<Rightarrow> bool" where
  "grown b c \<longleftrightarrow>
     tag c = tag b \<and> attrib c = attrib b \<and> text_of c = text_of b \<and> tail c = tail b \<and>
     (\<exists>dns. children c = children b @ dns \<and> list_all (\<lambda>d. tag d = ''display-name'') dns)"

text \<open>
  The shape of the root during the merge, against the root \<open>r0\<close> as the base
  document left it and the counter \<open>M\<close> as it stood then: the same root fields, the
  children of \<open>r0\<close>, each grown, and after them the new channels, whose ids count up
  from \<open>M + 1\<close> and are what \<^verbatim>\<open>str\<close> returned.
\<close>

definition shape :: "element \<Rightarrow> int \<Rightarrow> merge_state \<Rightarrow> bool" where
  "shape r0 M st \<longleftrightarrow>
     (\<exists>r zs news.
        base_root st = Some r \<and> tag r = tag r0 \<and> attrib r = attrib r0 \<and>
        text_of r = text_of r0 \<and> tail r = tail r0 \<and>
        children r = zs @ news \<and> list_all2 grown (children r0) zs \<and>
        map (\<lambda>c. (tag c, get c ''id'')) news =
          map (\<lambda>j. (''channel'', Some (decimal (M + 1 + int j)))) [0..<length news] \<and>
        max_id st = M + int (length news) \<and>
        (\<forall>j<length news. str (M + 1 + int j) = Some (decimal (M + 1 + int j))))"

text \<open>
  The list lines 159 to 164 are meant to build: every channel followed by the programmes
  kept for its id, every other child as it is.
\<close>

definition interleave :: "(string \<rightharpoonup> element list) \<Rightarrow> element list \<Rightarrow> element list" where
  "interleave pm xs =
     concat (map (\<lambda>c. if tag c = ''channel'' then c # programmes_of pm (get c ''id'') else [c]) xs)"

text \<open>
  What holds of \<^verbatim>\<open>programmes_map\<close> throughout: the empty string is no key, and a
  list holds programme elements whose channel attribute is the key.
\<close>

definition programmes_ok :: "(string \<rightharpoonup> element list) \<Rightarrow> bool" where
  "programmes_ok pm \<longleftrightarrow>
     pm [] = None \<and>
     (\<forall>c ps. pm c = Some ps \<longrightarrow>
        list_all (\<lambda>p. tag p = ''programme'' \<and> get p ''channel'' = Some c) ps)"

text \<open>The base channel ids that count for the maximum of lines 90 to 93.\<close>

definition numeric_ids :: "element \<Rightarrow> int set" where
  "numeric_ids root =
     {v. \<exists>ch\<in>set (findall root ''channel'').
           \<exists>cid. get ch ''id'' = Some cid \<and> cid \<noteq> [] \<and> py_int cid = Some v}"

section \<open>The ordering contract\<close>

text \<open>
  The contract for one channel \<open>c\<close> of a list of root children, with \<open>pre\<close> the
  children before it and \<open>post\<close> those after it: the programmes that follow \<open>c\<close>
  directly, up to the next child that is no programme, all carry the id of \<open>c\<close> as their
  channel, and no programme elsewhere does.
\<close>

definition follows_contract :: "element list \<Rightarrow> element \<Rightarrow> element list \<Rightarrow> bool" where
  "follows_contract pre c post \<longleftrightarrow>
     (\<forall>p\<in>set (takeWhile (\<lambda>p. tag p = ''programme'') post). get p ''channel'' = get c ''id'')
     \<and> (\<forall>p\<in>set pre \<union> set (dropWhile (\<lambda>p. tag p = ''programme'') post).
           tag p = ''programme'' \<longrightarrow> get p ''channel'' \<noteq> get c ''id'')"

fun contract_from :: "element list \<Rightarrow> element list \<Rightarrow> bool" where
  "contract_from pre [] = True"
| "contract_from pre (c # post) =
     ((tag c = ''channel'' \<longrightarrow> follows_contract pre c post) \<and> contract_from (pre @ [c]) post)"

definition ordering_contract :: "element \<Rightarrow> bool" where
  "ordering_contract root = contract_from [] (children root)"

text \<open>The non-empty ids of the channels among some children, in order.\<close>

definition channel_ids :: "element list \<Rightarrow> string list" where
  "channel_ids cs =
     concat (map (\<lambda>c. case get c ''id'' of
                          None \<Rightarrow> []
                        | Some cid \<Rightarrow> if cid = [] then [] else [cid])
                 (filter (\<lambda>c. tag c = ''channel'') cs))"

section \<open>Unique names\<close>

text \<open>No name is carried by two channels of the list.\<close>

fun names_unique :: "element list \<Rightarrow> bool" where
  "names_unique [] = True"
| "names_unique (c # cs) =
     ((\<forall>c'\<in>set cs. set (name_texts c) \<inter> set (name_texts c') = {}) \<and> names_unique cs)"

text \<open>
  The base document is clean when no two of its channels share a name and every channel
  with a name has an id, so that lines 85 to 89 index it.
\<close>

definition base_clean :: "element \<Rightarrow> bool" where
  "base_clean root \<longleftrightarrow>
     names_unique (findall root ''channel'') \<and>
     (\<forall>ch\<in>set (findall root ''channel'').
        name_texts ch = [] \<or>
        (case get ch ''id'' of None \<Rightarrow> False | Some cid \<Rightarrow> cid \<noteq> []))"

text \<open>
  An incoming channel is unambiguous in a state when all of its names that the index
  knows belong to the channel lines 112 to 116 pick.
\<close>

definition unambiguous :: "set_order \<Rightarrow> element \<Rightarrow> merge_state \<Rightarrow> bool" where
  "unambiguous iter ch st \<longleftrightarrow>
     (\<forall>n\<in>set (get_all_names iter ch).
        name_map st n = None \<or>
        name_map st n = find_target (name_map st) (get_all_names iter ch))"

text \<open>
  The same for a whole run: every channel is unambiguous in the state in which the loop
  reaches it. The three functions follow \<open>merge_channels\<close>, \<open>merge_loop\<close> and
  \<open>merge_files\<close>.
\<close>

fun unambiguous_channels :: "set_order \<Rightarrow> element list \<Rightarrow> merge_state \<Rightarrow> bool" where
  "unambiguous_channels iter [] st = True"
| "unambiguous_channels iter (ch # chs) st =
     (unambiguous iter ch st \<and>
      (case merge_channel iter ch st of
         Inl e \<Rightarrow> True
       | Inr st' \<Rightarrow> unambiguous_channels iter chs st'))"

fun unambiguous_loop ::
  "set_order \<Rightarrow> (string \<Rightarrow> input_file) \<Rightarrow> string \<Rightarrow> nat \<Rightarrow> string list \<Rightarrow> merge_state \<Rightarrow> bool" where
  "unambiguous_loop iter fs date_str idx [] st = True"
| "unambiguous_loop iter fs date_str idx (f # rest) st =
     (case parse_tree fs f of
        (msgs, None) \<Rightarrow>
          unambiguous_loop iter fs date_str (Suc idx) rest (st\<lparr>log := log st @ msgs\<rparr>)
      | (msgs, Some root) \<Rightarrow>
          if idx = 0
          then unambiguous_loop iter fs date_str (Suc idx) rest
                 (ingest_base iter date_str root (st\<lparr>log := log st @ msgs\<rparr>))
          else unambiguous_channels iter (findall root ''channel'') (st\<lparr>log := log st @ msgs\<rparr>)
               \<and> (case merge_document iter root (st\<lparr>log := log st @ msgs\<rparr>) of
                     Inl e \<Rightarrow> True
                   | Inr st' \<Rightarrow> unambiguous_loop iter fs date_str (Suc idx) rest st'))"

definition unambiguous_merge ::
  "set_order \<Rightarrow> (string \<Rightarrow> input_file) \<Rightarrow> string \<Rightarrow> string \<Rightarrow> string list \<Rightarrow> bool" where
  "unambiguous_merge iter fs date_str output_file input_files =
     unambiguous_loop iter fs date_str 0 input_files
       (init_state [Merging input_files output_file])"

text \<open>
  What this gives for the index: every name a channel of the root carries is indexed to
  that channel.
\<close>

definition indexed :: "merge_state \<Rightarrow> bool" where
  "indexed st \<longleftrightarrow>
     (\<exists>r. base_root st = Some r \<and>
        (\<forall>k<length (findall r ''channel'').
           \<forall>n\<in>set (name_texts (findall r ''channel'' ! k)). name_map st n = Some k))"

section \<open>Sample documents\<close>

text \<open>Short forms for the documents the examples below run on.\<close>

abbreviation channel_el :: "string \<Rightarrow> string list \<Rightarrow> element" where
  "channel_el i ns \<equiv>
     Element ''channel'' [(''id'', i)] None None
       (map (\<lambda>n. Element ''display-name'' [] (Some n) None []) ns)"

abbreviation programme_el :: "string \<Rightarrow> string \<Rightarrow> element" where
  "programme_el c t \<equiv> Element ''programme'' [(''start'', t), (''channel'', c)] None None []"

abbreviation tv :: "element list \<Rightarrow> input_file" where
  "tv cs \<equiv> Document (Element ''tv'' [] None None cs)"

abbreviation tv_out :: "element list \<Rightarrow> element" where
  "tv_out cs \<equiv>
     Element ''tv''
       [(''generator-info-name'', ''tvsilo.vip''),
        (''generator-info-url'', ''https://github.com/g12777/TV''),
        (''date'', ''20240101000000'')]
       None None cs"

section \<open>Basic facts\<close>

lemma valid_order_remdups: "valid_order remdups"
  by (simp add: valid_order_def)


lemma findall_set_attr: "findall (set_attr e k v) t = findall e t"
  by (simp add: findall_def set_attr_def)

lemma remap_programme_frame:
  "base_root (remap_programme p st) = base_root st \<and>
   name_map (remap_programme p st) = name_map st \<and>
   id_map (remap_programme p st) = id_map st \<and>
   max_id (remap_programme p st) = max_id st \<and>
   set (log st) \<subseteq> set (log (remap_programme p st))"
  by (auto simp: remap_programme_def Let_def split: option.splits)

lemma remap_programmes_frame:
  "base_root (remap_programmes ps st) = base_root st \<and>
   name_map (remap_programmes ps st) = name_map st \<and>
   id_map (remap_programmes ps st) = id_map st \<and>
   max_id (remap_programmes ps st) = max_id st \<and>
   set (log st) \<subseteq> set (log (remap_programmes ps st))"
  unfolding remap_programmes_def
proof (induction ps arbitrary: st)
  case Nil
  show ?case by simp
next
  case (Cons p ps)
  from Cons [of "remap_programme p st"] remap_programme_frame [of p st]
  show ?case by auto
qed

lemma dirname_empty: "dirname p = [] \<longleftrightarrow> CHR ''/'' \<notin> set p"
proof -
  define head where "head = rev (dropWhile (\<lambda>c. c \<noteq> CHR ''/'') (rev p))"
  have h: "head = [] \<longleftrightarrow> CHR ''/'' \<notin> set p"
    by (auto simp: head_def dropWhile_eq_Nil_conv)
  have "dirname p = [] \<longleftrightarrow> head = []"
    unfolding dirname_def Let_def head_def [symmetric]
    by (auto simp: dropWhile_eq_Nil_conv list_all_iff)
  with h show ?thesis by simp
qed

section \<open>A missing base document\<close>


lemma find_target_empty: "find_target Map.empty ns = None"
  by (induction ns) auto

lemma str_1: "str 1 = Some ''1''"
  by code_simp

lemma merge_channel_no_base:
  assumes "base_root st = None" "name_map st = Map.empty" "max_id st = 0"
  shows "merge_channel iter ch st = Inr st \<or> merge_channel iter ch st = Inl (AttributeError, log st)"
  using assms by (simp add: merge_channel_def Let_def find_target_empty str_1)

lemma merge_channels_no_base:
  assumes "base_root st = None" "name_map st = Map.empty" "max_id st = 0"
  shows "merge_channels iter chs st = Inr st \<or> merge_channels iter chs st = Inl (AttributeError, log st)"
proof (induction chs)
  case Nil
  show ?case by simp
next
  case (Cons ch chs)
  from merge_channel_no_base [OF assms, of iter ch] Cons show ?case
    by auto
qed

lemma merge_loop_no_base:
  assumes "base_root st = None" "name_map st = Map.empty" "max_id st = 0" "w \<in> set (log st)"
  shows "(\<exists>printed. merge_loop iter fs d (Suc idx) files st = Inl (AttributeError, printed) \<and> w \<in> set printed)
       \<or> (\<exists>st'. merge_loop iter fs d (Suc idx) files st = Inr st' \<and> base_root st' = None \<and> w \<in> set (log st'))"
  using assms
proof (induction files arbitrary: st idx)
  case Nil
  then show ?case by simp
next
  case (Cons f rest)
  show ?case
  proof (cases "parse_tree fs f")
    case (Pair msgs tree)
    show ?thesis
    proof (cases tree)
      case None
      with Pair Cons.IH [of "st\<lparr>log := log st @ msgs\<rparr>" "Suc idx"] Cons.prems
      show ?thesis by simp
    next
      case (Some root)
      let ?st = "st\<lparr>log := log st @ msgs\<rparr>"
      have p: "base_root ?st = None" "name_map ?st = Map.empty" "max_id ?st = 0"
          "w \<in> set (log ?st)"
        using Cons.prems by auto
      from merge_channels_no_base [OF p(1,2,3), of iter "findall root ''channel''"]
      show ?thesis
      proof
        assume ok: "merge_channels iter (findall root ''channel'') ?st = Inr ?st"
        let ?st2 = "remap_programmes (findall root ''programme'') ?st"
        have q: "base_root ?st2 = None" "name_map ?st2 = Map.empty" "max_id ?st2 = 0"
            "w \<in> set (log ?st2)"
          using p remap_programmes_frame [of "findall root ''programme''" ?st] by auto
        from Cons.IH [OF q, of "Suc idx"] Pair Some ok show ?thesis
          by (simp add: merge_document_def)
      next
        assume "merge_channels iter (findall root ''channel'') ?st = Inl (AttributeError, log ?st)"
        with Pair Some p(4) show ?thesis
          by (simp add: merge_document_def)
      qed
    qed
  qed
qed

lemma missing_base_aux:
  assumes "fs f = Missing \<or> fs f = Unparseable"
  shows "\<exists>printed. merge_files iter fs d out (f # rest) = Inl (AttributeError, printed)
           \<and> (FileNotFound f \<in> set printed \<or> ParseFailed f \<in> set printed)"
proof -
  let ?ini = "init_state [Merging (f # rest) out]"
  obtain w where w: "parse_tree fs f = ([w], None)" "w = FileNotFound f \<or> w = ParseFailed f"
    using assms by (auto simp: parse_tree_def)
  let ?st = "?ini\<lparr>log := log ?ini @ [w]\<rparr>"
  have p: "base_root ?st = None" "name_map ?st = Map.empty" "max_id ?st = 0"
      "w \<in> set (log ?st)"
    by (simp_all add: init_state_def)
  have step: "merge_loop iter fs d 0 (f # rest) ?ini = merge_loop iter fs d (Suc 0) rest ?st"
    using w(1) by simp
  from merge_loop_no_base [OF p, of iter fs d 0 rest]
  show ?thesis
  proof
    assume "\<exists>printed. merge_loop iter fs d (Suc 0) rest ?st = Inl (AttributeError, printed) \<and> w \<in> set printed"
    then show ?thesis using w(2) step by (auto simp: merge_files_def)
  next
    assume "\<exists>st'. merge_loop iter fs d (Suc 0) rest ?st = Inr st' \<and> base_root st' = None \<and> w \<in> set (log st')"
    then obtain st' where s: "merge_loop iter fs d (Suc 0) rest ?st = Inr st'" "base_root st' = None" "w \<in> set (log st')"
      by blast
    then show ?thesis using w(2) step by (auto simp: merge_files_def reassemble_def)
  qed
qed

text \<open>
  Claim C1. When the first input of a group is missing or unparseable, the claim has
  \<^verbatim>\<open>merge_files\<close> warn, write nothing and return. The code prints the warning of
  \<^verbatim>\<open>parse_tree\<close>, but it never returns: with no base root, line 133 or line 155
  raises AttributeError, whatever the other inputs are.
\<close>

theorem missing_base_raises:
  assumes "fs f = Missing \<or> fs f = Unparseable"
  shows "\<exists>printed. merge_files iter fs d out (f # rest) = Inl (AttributeError, printed)
           \<and> (FileNotFound f \<in> set printed \<or> ParseFailed f \<in> set printed)"
  using assms by (rule missing_base_aux)

theorem missing_base_raises_witness:
  "\<exists>printed. merge_files remdups (\<lambda>_. Missing) ''20240101000000'' ''epg/1d.xml'' [''epg/e.xml'', ''epg/x.xml'']
      = Inl (AttributeError, printed)"
  using missing_base_raises [of "\<lambda>_. Missing" "''epg/e.xml''" remdups "''20240101000000''" "''epg/1d.xml''" "[''epg/x.xml'']"]
  by auto

text \<open>The exception leaves \<^verbatim>\<open>main\<close> too, so the second group is not attempted.\<close>

lemma main_stops_at_missing_base:
  assumes "fs ''epg/e.xml'' = Missing \<or> fs ''epg/e.xml'' = Unparseable"
  shows "\<exists>printed. main iter fs d = Inl (AttributeError, printed)"
proof -
  from assms missing_base_aux [of fs "''epg/e.xml''" iter d "''epg/1d.xml''" "[''epg/plsy1_1d.xml'', ''epg/112114.xml'']"]
  obtain printed where p: "merge_files iter fs d ''epg/1d.xml'' [''epg/e.xml'', ''epg/plsy1_1d.xml'', ''epg/112114.xml''] = Inl (AttributeError, printed)"
    by blast
  then show ?thesis by (simp add: main_def MERGES_def)
qed

section \<open>The names of a channel\<close>

lemma strip_surrounding:
  assumes "\<forall>c\<in>set l. is_space c" "\<forall>c\<in>set r. is_space c"
  shows "strip (l @ s @ r) = strip s"
proof -
  have a: "dropWhile is_space (l @ s @ r) = dropWhile is_space (s @ r)"
    by (rule dropWhile_append2) (use assms(1) in auto)
  show ?thesis
  proof (cases "\<forall>c\<in>set s. is_space c")
    case True
    then have h1: "dropWhile is_space (s @ r) = []"
      using assms(2) by (auto simp: dropWhile_eq_Nil_conv)
    have h2: "dropWhile is_space s = []"
      using True by (auto simp: dropWhile_eq_Nil_conv)
    show ?thesis by (simp add: strip_def a h1 h2)
  next
    case False
    then obtain x where x: "x \<in> set s" "\<not> is_space x" by blast
    then have b: "dropWhile is_space (s @ r) = dropWhile is_space s @ r"
      by (simp add: dropWhile_append1)
    have "dropWhile is_space (rev r @ rev (dropWhile is_space s)) =
        dropWhile is_space (rev (dropWhile is_space s))"
      by (rule dropWhile_append2) (use assms(2) in auto)
    then show ?thesis by (simp add: strip_def a b)
  qed
qed

lemma set_name_texts:
  "set (name_texts ch) =
     {strip t |t. t \<noteq> [] \<and> (\<exists>dn\<in>set (findall ch ''display-name''). text_of dn = Some t)}"
proof -
  have "\<And>x. x \<in> set (name_texts ch) \<longleftrightarrow>
          (\<exists>t. x = strip t \<and> t \<noteq> [] \<and>
             (\<exists>dn\<in>set (findall ch ''display-name''). text_of dn = Some t))"
    unfolding name_texts_def by (force split: option.splits if_splits)
  then show ?thesis by blast
qed

lemma strip_ends:
  "strip s = [] \<or> (\<not> is_space (hd (strip s)) \<and> \<not> is_space (last (strip s)))"
proof (cases "strip s = []")
  case True
  then show ?thesis by simp
next
  case False
  define u where "u = dropWhile is_space s"
  define v where "v = dropWhile is_space (rev u)"
  have sv: "strip s = rev v" by (simp add: strip_def u_def v_def)
  with False have v: "v \<noteq> []" by simp
  then have hv: "\<not> is_space (hd v)"
    unfolding v_def by (rule hd_dropWhile)
  from v have u: "u \<noteq> []" by (auto simp: v_def)
  then have hu: "\<not> is_space (hd u)"
    unfolding u_def by (rule hd_dropWhile)
  obtain w where w: "rev u = w @ v"
    unfolding v_def by (metis takeWhile_dropWhile_id)
  have "last v = last (rev u)"
    using v by (simp add: w)
  also have "\<dots> = hd u"
    using u by (simp add: last_rev)
  finally have lv: "\<not> is_space (last v)" using hu by simp
  have "hd (strip s) = last v" "last (strip s) = hd v"
    using v by (simp_all add: sv hd_rev last_rev)
  with hv lv show ?thesis by simp
qed

lemma strip_split:
  "\<exists>l r. s = l @ strip s @ r \<and> (\<forall>c\<in>set (l @ r). is_space c)"
proof -
  define u where "u = dropWhile is_space s"
  have a: "s = takeWhile is_space s @ u"
    by (simp add: u_def)
  have b: "rev u = takeWhile is_space (rev u) @ rev (strip s)"
    by (simp add: strip_def u_def)
  have "rev (rev u) = rev (takeWhile is_space (rev u) @ rev (strip s))"
    by (simp only: b [symmetric])
  then have c: "u = strip s @ rev (takeWhile is_space (rev u))"
    by simp
  have d: "\<forall>c\<in>set (takeWhile is_space s @ rev (takeWhile is_space (rev u))). is_space c"
    by (auto dest: set_takeWhileD)
  have "s = takeWhile is_space s @ strip s @ rev (takeWhile is_space (rev u))"
    using a c by simp
  with d show ?thesis by blast
qed

lemma is_space_code_points:
  "is_space c \<longleftrightarrow> (of_char c :: nat) \<in> {9, 10, 11, 12, 13, 28, 29, 30, 31, 32, 133, 160}"
  unfolding is_space_def Let_def by (simp, arith)


text \<open>
  Claim C9. The names of a channel are the stripped texts of its display-name children
  whose text is present and not empty, each once. Stripping a text takes a run of white
  space off each end and leaves a string that neither starts nor ends with white space,
  where white space is the code points 9 to 13, 28 to 32, 133 and 160; so two texts that
  differ only in the white space around them give the same name.
\<close>

theorem names_are_stripped_texts:
  assumes "valid_order iter"
  shows "set (get_all_names iter ch) =
           {strip t |t. t \<noteq> [] \<and>
              (\<exists>dn\<in>set (findall ch ''display-name''). text_of dn = Some t)}
         \<and> distinct (get_all_names iter ch)
         \<and> (\<forall>t. \<exists>l r. t = l @ strip t @ r \<and> (\<forall>c\<in>set (l @ r). is_space c)
                \<and> (strip t = [] \<or>
                     (\<not> is_space (hd (strip t)) \<and> \<not> is_space (last (strip t)))))
         \<and> (\<forall>c. is_space c \<longleftrightarrow>
                (of_char c :: nat) \<in> {9, 10, 11, 12, 13, 28, 29, 30, 31, 32, 133, 160})
         \<and> (\<forall>l1 r1 l2 r2 s.
              (\<forall>c\<in>set (l1 @ r1 @ l2 @ r2). is_space c) \<longrightarrow>
                strip (l1 @ s @ r1) = strip (l2 @ s @ r2))"
proof (intro conjI)
  show "set (get_all_names iter ch) =
           {strip t |t. t \<noteq> [] \<and>
              (\<exists>dn\<in>set (findall ch ''display-name''). text_of dn = Some t)}"
    using assms by (simp add: get_all_names_def valid_order_def set_name_texts)
  show "distinct (get_all_names iter ch)"
    using assms by (simp add: get_all_names_def valid_order_def)
  show "\<forall>t. \<exists>l r. t = l @ strip t @ r \<and> (\<forall>c\<in>set (l @ r). is_space c)
                \<and> (strip t = [] \<or>
                     (\<not> is_space (hd (strip t)) \<and> \<not> is_space (last (strip t))))"
    using strip_split strip_ends by blast
  show "\<forall>c. is_space c \<longleftrightarrow>
                (of_char c :: nat) \<in> {9, 10, 11, 12, 13, 28, 29, 30, 31, 32, 133, 160}"
    using is_space_code_points by blast
  show "\<forall>l1 r1 l2 r2 s.
              (\<forall>c\<in>set (l1 @ r1 @ l2 @ r2). is_space c) \<longrightarrow>
                strip (l1 @ s @ r1) = strip (l2 @ s @ r2)"
    by (auto simp: strip_surrounding)
qed

theorem names_are_stripped_texts_witness:
  "set (get_all_names remdups
        (Element ''channel'' [(''id'', ''7'')] None None
           [Element ''display-name'' [] (Some '' CNN'') None [],
            Element ''display-name'' [] (Some ''CNN  '') None [],
            Element ''display-name'' [] (Some []) None [],
            Element ''display-name'' [] None None [],
            Element ''icon'' [] (Some ''x'') None []]))
     = {''CNN''}
   \<and> distinct (get_all_names remdups
        (Element ''channel'' [(''id'', ''7'')] None None
           [Element ''display-name'' [] (Some '' CNN'') None [],
            Element ''display-name'' [] (Some ''CNN  '') None [],
            Element ''display-name'' [] (Some []) None [],
            Element ''display-name'' [] None None [],
            Element ''icon'' [] (Some ''x'') None []]))
   \<and> strip '' CNN'' = ''CNN'' \<and> strip ''CNN  '' = ''CNN''"
proof -
  define ch where "ch = Element ''channel'' [(''id'', ''7'')] None None
           [Element ''display-name'' [] (Some '' CNN'') None [],
            Element ''display-name'' [] (Some ''CNN  '') None [],
            Element ''display-name'' [] (Some []) None [],
            Element ''display-name'' [] None None [],
            Element ''icon'' [] (Some ''x'') None []]"
  have s1: "strip '' CNN'' = ''CNN''" by code_simp
  have s2: "strip ''CNN  '' = ''CNN''" by code_simp
  note t = names_are_stripped_texts [OF valid_order_remdups, of ch]
  have "set (get_all_names remdups ch) =
      {strip t |t. t \<noteq> [] \<and> (\<exists>dn\<in>set (findall ch ''display-name''). text_of dn = Some t)}"
    by (rule t [THEN conjunct1])
  also have "\<dots> = {strip t |t. t = '' CNN'' \<or> t = ''CNN  ''}"
    unfolding ch_def by (auto simp: findall_def)
  also have "\<dots> = {strip '' CNN'', strip ''CNN  ''}"
    by auto
  also have "\<dots> = {''CNN''}"
    by (simp add: s1 s2)
  finally have a: "set (get_all_names remdups ch) = {''CNN''}" .
  have b: "distinct (get_all_names remdups ch)"
    by (rule t [THEN conjunct2, THEN conjunct1])
  from a b s1 s2 show ?thesis
    unfolding ch_def by blast
qed

section \<open>Scenario 1\<close>



section \<open>Programmes that do not resolve\<close>

lemma remap_programme_log:
  "log (remap_programme p st) =
     log st @ (if resolved_id (id_map st) p = None then [ChannelNotFound (get p ''channel'')] else [])"
  by (auto simp: remap_programme_def resolved_id_def Let_def split: option.splits)

lemma remap_programme_map:
  "programmes_of (programmes_map (remap_programme p st)) (Some c) =
     programmes_of (programmes_map st) (Some c) @
       (if resolved_id (id_map st) p = Some c then [set_attr p ''channel'' c] else [])"
  by (auto simp: remap_programme_def resolved_id_def programmes_of_def Let_def split: option.splits)

lemma remap_programmes_log:
  "log (remap_programmes ps st) =
     log st @ [ChannelNotFound (get p ''channel''). p \<leftarrow> ps, resolved_id (id_map st) p = None]"
  unfolding remap_programmes_def
proof (induction ps arbitrary: st)
  case Nil
  show ?case by simp
next
  case (Cons p ps)
  show ?case
    by (simp add: Cons [of "remap_programme p st"] remap_programme_log remap_programme_frame)
qed

lemma remap_programmes_map:
  "programmes_of (programmes_map (remap_programmes ps st)) (Some c) =
     programmes_of (programmes_map st) (Some c) @
       [set_attr p ''channel'' c. p \<leftarrow> ps, resolved_id (id_map st) p = Some c]"
  unfolding remap_programmes_def
proof (induction ps arbitrary: st)
  case Nil
  show ?case by simp
next
  case (Cons p ps)
  show ?case
    by (simp add: Cons [of "remap_programme p st"] remap_programme_map remap_programme_frame)
qed

lemma ingest_channel_frame:
  "log (ingest_channel iter k ch st) = log st
   \<and> base_root (ingest_channel iter k ch st) = base_root st
   \<and> id_map (ingest_channel iter k ch st) = id_map st"
  by (simp add: ingest_channel_def split: option.splits)

lemma ingest_channels_frame:
  "log (ingest_channels iter k chs st) = log st
   \<and> base_root (ingest_channels iter k chs st) = base_root st
   \<and> id_map (ingest_channels iter k chs st) = id_map st"
  by (induction chs arbitrary: k st) (simp_all add: ingest_channel_frame)

lemma ingest_channel_programmes:
  "programmes_map (ingest_channel iter k ch st) c =
     (if c \<noteq> [] \<and> get ch ''id'' = Some c then Some [] else programmes_map st c)"
  by (auto simp: ingest_channel_def split: option.splits)

lemma ingest_channels_programmes:
  "programmes_map (ingest_channels iter k chs st) c =
     (if c \<noteq> [] \<and> (\<exists>ch\<in>set chs. get ch ''id'' = Some c) then Some []
      else programmes_map st c)"
  by (induction chs arbitrary: k st) (auto simp: ingest_channel_programmes)

lemma collect_programme_at:
  "collect_programme p pm c =
     (case pm c of None \<Rightarrow> None
      | Some l \<Rightarrow> Some (l @ (if get p ''channel'' = Some c then [p] else [])))"
  by (auto simp: collect_programme_def split: option.splits)

lemma fold_collect_programme:
  "fold collect_programme ps pm c =
     (case pm c of None \<Rightarrow> None
      | Some l \<Rightarrow> Some (l @ filter (\<lambda>p. get p ''channel'' = Some c) ps))"
proof (induction ps arbitrary: pm)
  case Nil
  show ?case by (simp split: option.splits)
next
  case (Cons p ps)
  have "fold collect_programme (p # ps) pm c = fold collect_programme ps (collect_programme p pm) c"
    by simp
  also have "\<dots> = (case collect_programme p pm c of None \<Rightarrow> None
      | Some l \<Rightarrow> Some (l @ filter (\<lambda>p. get p ''channel'' = Some c) ps))"
    by (rule Cons)
  also have "\<dots> = (case pm c of None \<Rightarrow> None
      | Some l \<Rightarrow> Some (l @ filter (\<lambda>p. get p ''channel'' = Some c) (p # ps)))"
    unfolding collect_programme_at [of p pm c] by (simp split: option.splits)
  finally show ?case .
qed

lemma ingest_base_log: "log (ingest_base iter d root st) = log st"
  by (simp add: ingest_base_def Let_def ingest_channels_frame)

lemma findall_stamp_root: "findall (stamp_root d root) t = findall root t"
  by (simp add: stamp_root_def Let_def findall_set_attr)

lemma ingest_base_programmes_map:
  "programmes_map (ingest_base iter d root st) =
     fold collect_programme (findall root ''programme'')
       (programmes_map (ingest_channels iter 0 (findall root ''channel'') st))"
  by (simp add: ingest_base_def Let_def findall_stamp_root)

lemma ingest_base_programmes:
  "programmes_of (programmes_map (ingest_base iter d root (init_state msgs))) (Some c) =
     (if c \<in> base_ids root
      then filter (\<lambda>p. get p ''channel'' = Some c) (findall root ''programme'')
      else [])"
proof -
  let ?st1 = "ingest_channels iter 0 (findall root ''channel'') (init_state msgs)"
  have st1: "programmes_map ?st1 c = (if c \<in> base_ids root then Some [] else None)"
    unfolding ingest_channels_programmes by (simp add: base_ids_def init_state_def)
  show ?thesis
    unfolding ingest_base_programmes_map programmes_of_def option.case
      fold_collect_programme st1
    by simp
qed

text \<open>
  Claim C7, as amended. A programme of a further document whose channel attribute has no
  usable entry in the old-to-new map is warned about and dropped, and the loop goes on:
  the messages added are the warnings for exactly these programmes, in order, and every
  other programme is appended, rewritten, to the list of its new id. A programme of the
  base document whose channel is not a non-empty id of a base channel is dropped too, but
  without any message.
\<close>

theorem unresolved_programmes:
  "log (remap_programmes ps st) =
     log st @ [ChannelNotFound (get p ''channel''). p \<leftarrow> ps, resolved_id (id_map st) p = None]
   \<and> (\<forall>c. programmes_of (programmes_map (remap_programmes ps st)) (Some c) =
          programmes_of (programmes_map st) (Some c) @
            [set_attr p ''channel'' c. p \<leftarrow> ps, resolved_id (id_map st) p = Some c])
   \<and> log (ingest_base iter d root (init_state msgs)) = msgs
   \<and> (\<forall>c. programmes_of (programmes_map (ingest_base iter d root (init_state msgs))) (Some c) =
          (if c \<in> base_ids root
           then filter (\<lambda>p. get p ''channel'' = Some c) (findall root ''programme'')
           else []))"
proof -
  have "log (init_state msgs) = msgs" by (simp add: init_state_def)
  then show ?thesis
    by (simp add: remap_programmes_log remap_programmes_map ingest_base_log
        ingest_base_programmes)
qed

text \<open>
  Claim C7 as stated includes the base document. There the programme with the unknown
  channel 99 disappears and no warning is printed.
\<close>

theorem base_programme_dropped_silently:
  "merge_files remdups
     ((\<lambda>_. Missing)(''base.xml'' := tv [channel_el ''1'' [''A''], programme_el ''99'' ''x'']))
     ''20240101000000'' ''out/out.xml'' [''base.xml'']
   = Inr ([Merging [''base.xml''] ''out/out.xml'', MergeDone ''out/out.xml''],
          Some (''out/out.xml'', tv_out [channel_el ''1'' [''A'']]))"
  by code_simp

section \<open>One channel of a further document\<close>

lemma merge_channel_InrE:
  assumes "merge_channel iter ch st = Inr st'"
  obtains
    (skip) "get_all_names iter ch = []" "st' = st"
  | (merge) k root target_ch where
      "get_all_names iter ch \<noteq> []"
      "find_target (name_map st) (get_all_names iter ch) = Some k"
      "base_root st = Some root" "deref root k = Some target_ch"
      "st' = st\<lparr>base_root := Some (set_children root
                    (update_channel k (add_names (fresh_names iter ch target_ch)) (children root))),
                 name_map := index_names k (fresh_names iter ch target_ch) (name_map st),
                 id_map := (id_map st)(get ch ''id'' \<mapsto> get target_ch ''id'')\<rparr>"
  | (new) root where
      "get_all_names iter ch \<noteq> []"
      "find_target (name_map st) (get_all_names iter ch) = None"
      "base_root st = Some root"
      "st' = st\<lparr>base_root := Some (append root (set_attr ch ''id'' (decimal (max_id st + 1)))),
                 name_map := index_names (length (findall root ''channel''))
                    (get_all_names iter ch) (name_map st),
                 id_map := (id_map st)(get ch ''id'' \<mapsto> Some (decimal (max_id st + 1))),
                 max_id := max_id st + 1,
                 programmes_map := (programmes_map st)(decimal (max_id st + 1) \<mapsto> [])\<rparr>"
      "str (max_id st + 1) = Some (decimal (max_id st + 1))"
  using assms unfolding merge_channel_def Let_def
  by (auto simp: str_def split: if_splits option.splits)

lemma merge_channels_invariant:
  assumes "merge_channels iter chs st = Inr st'" and "P st"
    and "\<And>ch s s'. ch \<in> set chs \<Longrightarrow> P s \<Longrightarrow> merge_channel iter ch s = Inr s' \<Longrightarrow> P s'"
  shows "P st'"
  using assms
proof (induction chs arbitrary: st)
  case Nil
  then show ?case by simp
next
  case (Cons ch chs)
  from Cons.prems(1) obtain s1 where s1: "merge_channel iter ch st = Inr s1"
      "merge_channels iter chs s1 = Inr st'"
    by (auto split: sum.splits)
  have "P s1"
    by (rule Cons.prems(3) [OF _ Cons.prems(2) s1(1)]) simp
  then show ?case
    by (rule Cons.IH [OF s1(2)]) (rule Cons.prems(3), simp_all)
qed








text \<open>
  Claim C6, as amended. A channel of a further document whose id is missing or empty
  and that has a name is handled as every other channel: it is merged into the first
  matching channel or appended with a fresh id, and the map records its old id, None or
  the empty string, against the new one. Only the loop over the base document looks at
  the id: there a channel with a missing or empty id is passed over, so that its names
  are not indexed, the counter does not move and no programme list is opened for it.
\<close>

theorem channel_without_id_is_merged:
  assumes "get ch ''id'' = None \<or> get ch ''id'' = Some []"
    and "get_all_names iter ch \<noteq> []"
    and "merge_channel iter ch st = Inr st'"
  shows "(\<exists>root. base_root st = Some root \<and>
     (case find_target (name_map st) (get_all_names iter ch) of
        None \<Rightarrow>
          (\<exists>new_id. str (max_id st + 1) = Some new_id
             \<and> base_root st' = Some (append root (set_attr ch ''id'' new_id))
             \<and> id_map st' (get ch ''id'') = Some (Some new_id))
      | Some k \<Rightarrow>
          (\<exists>target_ch. deref root k = Some target_ch
             \<and> base_root st' = Some (set_children root
                  (update_channel k (add_names (fresh_names iter ch target_ch)) (children root)))
             \<and> id_map st' (get ch ''id'') = Some (get target_ch ''id''))))
     \<and> (\<forall>k s. ingest_channel iter k ch s = s)"
proof -
  have "\<forall>k s. ingest_channel iter k ch s = s"
    using assms(1) by (auto simp: ingest_channel_def)
  moreover have "\<exists>root. base_root st = Some root \<and>
     (case find_target (name_map st) (get_all_names iter ch) of
        None \<Rightarrow>
          (\<exists>new_id. str (max_id st + 1) = Some new_id
             \<and> base_root st' = Some (append root (set_attr ch ''id'' new_id))
             \<and> id_map st' (get ch ''id'') = Some (Some new_id))
      | Some k \<Rightarrow>
          (\<exists>target_ch. deref root k = Some target_ch
             \<and> base_root st' = Some (set_children root
                  (update_channel k (add_names (fresh_names iter ch target_ch)) (children root)))
             \<and> id_map st' (get ch ''id'') = Some (get target_ch ''id'')))"
    using assms(3,2) by (elim merge_channel_InrE) auto
  ultimately show ?thesis by blast
qed

lemma str_2: "str 2 = Some ''2''"
  by code_simp

theorem channel_without_id_is_merged_witness:
  "\<exists>st'. merge_channel remdups
       (Element ''channel'' [] None None [Element ''display-name'' [] (Some ''B'') None []])
       \<lparr>base_root = Some (tv_out [channel_el ''1'' [''A'']]), name_map = [''A'' \<mapsto> 0],
        id_map = Map.empty, max_id = 1, programmes_map = [''1'' \<mapsto> []], log = []\<rparr>
     = Inr st'
   \<and> base_root st' = Some (tv_out [channel_el ''1'' [''A''], channel_el ''2'' [''B'']])
   \<and> id_map st' None = Some (Some ''2'')
   \<and> ingest_channel remdups 0
       (Element ''channel'' [] None None [Element ''display-name'' [] (Some ''B'') None []])
       (init_state []) = init_state []"
proof -
  let ?ch = "Element ''channel'' [] None None [Element ''display-name'' [] (Some ''B'') None []]"
  let ?S = "\<lparr>base_root = Some (tv_out [channel_el ''1'' [''A'']]), name_map = [''A'' \<mapsto> 0],
        id_map = Map.empty, max_id = 1, programmes_map = [''1'' \<mapsto> []], log = []\<rparr>"
  have sB: "strip ''B'' = ''B''" by code_simp
  have names: "get_all_names remdups ?ch = [''B'']"
    by (simp add: get_all_names_def name_texts_def findall_def sB)
  have "\<exists>st'. merge_channel remdups ?ch ?S = Inr st'"
    by (simp add: merge_channel_def names Let_def str_2)
  then obtain st' where run: "merge_channel remdups ?ch ?S = Inr st'" ..
  have noid: "get ?ch ''id'' = None \<or> get ?ch ''id'' = Some []"
    by (simp add: get_def)
  have ne: "get_all_names remdups ?ch \<noteq> []" by (simp add: names)
  note t = channel_without_id_is_merged [OF noid ne run]
  from t [THEN conjunct1]
  have a: "base_root st' = Some (tv_out [channel_el ''1'' [''A''], channel_el ''2'' [''B'']])
      \<and> id_map st' None = Some (Some ''2'')"
    by (simp add: names get_def append_def set_attr_def str_2)
  have b: "ingest_channel remdups 0 ?ch (init_state []) = init_state []"
    by (rule t [THEN conjunct2, THEN spec, THEN spec])
  from run a b show ?thesis by blast
qed

text \<open>
  Claim C6 as stated has such a channel skipped. Here the second input holds a channel
  with no id and a programme with no channel attribute: the channel is appended with the
  id 2, and the programme follows it through the entry the channel left for the key None.
\<close>

theorem channel_without_id_not_skipped:
  "merge_files remdups
     ((\<lambda>_. Missing)
        (''base.xml'' := tv [channel_el ''1'' [''A'']],
         ''second.xml'' := tv
            [Element ''channel'' [] None None [Element ''display-name'' [] (Some ''B'') None []],
             Element ''programme'' [(''start'', ''x'')] None None []]))
     ''20240101000000'' ''out/out.xml'' [''base.xml'', ''second.xml'']
   = Inr ([Merging [''base.xml'', ''second.xml''] ''out/out.xml'', MergeDone ''out/out.xml''],
          Some (''out/out.xml'',
            tv_out [channel_el ''1'' [''A''], channel_el ''2'' [''B''], programme_el ''2'' ''x'']))"
  by code_simp

section \<open>The shape of the root\<close>

lemma grown_refl: "grown c c"
  by (simp add: grown_def)

lemma grown_trans: "grown a b \<Longrightarrow> grown b c \<Longrightarrow> grown a c"
  by (auto simp: grown_def)

lemma grown_append: "grown t (append t (display_name n))"
  by (simp add: grown_def append_def display_name_def)

lemma grown_add_names: "grown t (add_names ns t)"
  unfolding add_names_def
proof (induction ns arbitrary: t)
  case Nil
  show ?case by (simp add: grown_refl)
next
  case (Cons n ns)
  from grown_append [of t n] Cons [of "append t (display_name n)"]
  show ?case by (auto intro: grown_trans)
qed

lemma grown_get: "grown b c \<Longrightarrow> get c k = get b k"
  by (simp add: grown_def get_def)

lemma update_channel_grown:
  assumes "\<And>c. grown c (f c)"
  shows "list_all2 grown ys (update_channel k f ys)"
proof (induction ys arbitrary: k)
  case Nil
  show ?case by simp
next
  case (Cons y ys)
  have r: "list_all2 grown ys ys"
    by (simp add: list_all2_refl grown_refl)
  show ?case
    using Cons assms r by (cases k) (simp_all add: grown_refl)
qed

lemma list_all2_grown_trans:
  "list_all2 grown xs ys \<Longrightarrow> list_all2 grown ys zs \<Longrightarrow> list_all2 grown xs zs"
  by (rule list_all2_trans [of grown grown grown]) (auto intro: grown_trans)

lemma list_all2_grown_map:
  "list_all2 grown xs ys \<Longrightarrow> map (\<lambda>c. (tag c, get c k)) ys = map (\<lambda>c. (tag c, get c k)) xs"
  by (induction rule: list_all2_induct) (simp_all add: grown_def get_def)

lemma shape_merge_channel:
  assumes sh: "shape r0 M st" and t: "tag ch = ''channel''"
    and run: "merge_channel iter ch st = Inr st'"
  shows "shape r0 M st'"
proof -
  from sh obtain r zs news where r: "base_root st = Some r" "tag r = tag r0" "attrib r = attrib r0"
      "text_of r = text_of r0" "tail r = tail r0" "children r = zs @ news"
      "list_all2 grown (children r0) zs"
      "map (\<lambda>c. (tag c, get c ''id'')) news =
         map (\<lambda>j. (''channel'', Some (decimal (M + 1 + int j)))) [0..<length news]"
      "max_id st = M + int (length news)"
      "\<forall>j<length news. str (M + 1 + int j) = Some (decimal (M + 1 + int j))"
    unfolding shape_def by blast
  from run show ?thesis
  proof (cases rule: merge_channel_InrE)
    case skip
    with sh show ?thesis by simp
  next
    case (merge k root target_ch)
    let ?ys = "update_channel k (add_names (fresh_names iter ch target_ch)) (children r)"
    have g: "list_all2 grown (zs @ news) ?ys"
      using update_channel_grown [of "add_names (fresh_names iter ch target_ch)" "children r" k]
      by (simp add: grown_add_names r(6))
    then have len: "length ?ys = length zs + length news"
      by (auto dest: list_all2_lengthD)
    let ?zs = "take (length zs) ?ys" and ?news = "drop (length zs) ?ys"
    have g1: "list_all2 grown zs ?zs"
      using list_all2_takeI [OF g, of "length zs"] by simp
    have g2: "list_all2 grown news ?news"
      using list_all2_dropI [OF g, of "length zs"] by simp
    have a: "list_all2 grown (children r0) ?zs"
      using r(7) g1 by (rule list_all2_grown_trans)
    have ln: "length ?news = length news" using len by simp
    have b: "map (\<lambda>c. (tag c, get c ''id'')) ?news =
         map (\<lambda>j. (''channel'', Some (decimal (M + 1 + int j)))) [0..<length ?news]"
      unfolding ln using list_all2_grown_map [OF g2, of "''id''"] r(8) by simp
    have root: "root = r" using merge(3) r(1) by simp
    show ?thesis
      unfolding shape_def
      apply (rule exI [of _ "set_children r ?ys"])
      apply (rule exI [of _ ?zs])
      apply (rule exI [of _ ?news])
      using a b r ln by (simp add: merge(5) root set_children_def)
  next
    case (new root)
    have root: "root = r" using new(3) r(1) by simp
    let ?ch = "set_attr ch ''id'' (decimal (max_id st + 1))"
    let ?new = "decimal (M + 1 + int (length news))"
    have m: "max_id st + 1 = M + 1 + int (length news)"
      using r(9) by simp
    have st': "base_root st' = Some (append r (set_attr ch ''id'' ?new))"
        "max_id st' = M + 1 + int (length news)"
      unfolding new(4) m root by simp_all
    let ?ch = "set_attr ch ''id'' ?new"
    have c: "tag ?ch = ''channel''" "get ?ch ''id'' = Some ?new"
      using t by (simp_all add: set_attr_def get_def update_conv')
    have ids: "map (\<lambda>c. (tag c, get c ''id'')) (news @ [?ch]) =
         map (\<lambda>j. (''channel'', Some (decimal (M + 1 + int j)))) [0..<length (news @ [?ch])]"
      using r(8) c by simp
    have mx: "max_id st' = M + int (length (news @ [?ch]))"
      unfolding st'(2) by simp
    have ft: "\<forall>j<length (news @ [?ch]). str (M + 1 + int j) = Some (decimal (M + 1 + int j))"
      using r(10) new(5) [unfolded m] by (auto simp: less_Suc_eq)
    have ch: "children (append r ?ch) = zs @ (news @ [?ch])"
      by (simp add: append_def r(6))
    have fr: "tag (append r ?ch) = tag r0" "attrib (append r ?ch) = attrib r0"
        "text_of (append r ?ch) = text_of r0" "tail (append r ?ch) = tail r0"
      using r(2-5) by (simp_all add: append_def)
    show ?thesis
      unfolding shape_def using st'(1) fr ch r(7) ids mx ft by blast
  qed
qed

section \<open>Invariants of the loops\<close>

lemma remap_programmes_invariant:
  assumes "P st" and "\<And>p s. p \<in> set ps \<Longrightarrow> P s \<Longrightarrow> P (remap_programme p s)"
  shows "P (remap_programmes ps st)"
  using assms unfolding remap_programmes_def
  by (induction ps arbitrary: st) simp_all

lemma merge_document_invariant:
  assumes run: "merge_document iter root st = Inr st'" and "P st"
    and ch: "\<And>ch s s'. tag ch = ''channel'' \<Longrightarrow> P s \<Longrightarrow> merge_channel iter ch s = Inr s' \<Longrightarrow> P s'"
    and pr: "\<And>p s. tag p = ''programme'' \<Longrightarrow> P s \<Longrightarrow> P (remap_programme p s)"
  shows "P st'"
proof -
  from run obtain s1 where s1: "merge_channels iter (findall root ''channel'') st = Inr s1"
      and st': "st' = remap_programmes (findall root ''programme'') s1"
    by (auto simp: merge_document_def split: sum.splits)
  have "P s1"
    by (rule merge_channels_invariant [where P = P, OF s1 assms(2)])
       (rule ch, simp_all add: findall_def)
  then show ?thesis
    unfolding st' by (rule remap_programmes_invariant [where P = P])
       (rule pr, simp_all add: findall_def)
qed

lemma merge_loop_invariant:
  assumes run: "merge_loop iter fs d (Suc idx) files st = Inr st'" and "P st"
    and ch: "\<And>ch s s'. tag ch = ''channel'' \<Longrightarrow> P s \<Longrightarrow> merge_channel iter ch s = Inr s' \<Longrightarrow> P s'"
    and pr: "\<And>p s. tag p = ''programme'' \<Longrightarrow> P s \<Longrightarrow> P (remap_programme p s)"
    and lg: "\<And>s msgs. P s \<Longrightarrow> P (s\<lparr>log := log s @ msgs\<rparr>)"
  shows "P st'"
  using run assms(2)
proof (induction files arbitrary: st idx)
  case Nil
  then show ?case by simp
next
  case (Cons f rest)
  obtain msgs tree where pt: "parse_tree fs f = (msgs, tree)"
    by (cases "parse_tree fs f")
  have P1: "P (st\<lparr>log := log st @ msgs\<rparr>)"
    using Cons.prems(2) by (rule lg)
  show ?case
  proof (cases tree)
    case None
    with Cons.prems(1) pt have "merge_loop iter fs d (Suc (Suc idx)) rest (st\<lparr>log := log st @ msgs\<rparr>) = Inr st'"
      by simp
    then show ?thesis using P1 by (rule Cons.IH)
  next
    case (Some root)
    with Cons.prems(1) pt obtain s1 where
      s1: "merge_document iter root (st\<lparr>log := log st @ msgs\<rparr>) = Inr s1"
      and rest: "merge_loop iter fs d (Suc (Suc idx)) rest s1 = Inr st'"
      by (auto split: sum.splits)
    have "P s1"
      by (rule merge_document_invariant [where P = P, OF s1 P1]) (rule ch, assumption+, rule pr)
    with rest show ?thesis by (rule Cons.IH)
  qed
qed

lemma shape_frame:
  assumes "shape r0 M st" "base_root st' = base_root st" "max_id st' = max_id st"
  shows "shape r0 M st'"
  using assms unfolding shape_def by simp

lemma shape_ingest_base:
  "shape (remove_programmes (stamp_root d B))
         (max_id (ingest_base iter d B st)) (ingest_base iter d B st)"
  unfolding shape_def
  by (rule exI [of _ "remove_programmes (stamp_root d B)"],
      rule exI [of _ "children (remove_programmes (stamp_root d B))"],
      rule exI [of _ "[]"])
     (simp add: ingest_base_def Let_def list_all2_refl grown_refl)

lemma shape_merge_loop:
  assumes "merge_loop iter fs d (Suc idx) files st = Inr st'" and "shape r0 M st"
  shows "shape r0 M st'"
  using assms
proof (rule merge_loop_invariant [where P = "shape r0 M"])
  show "\<And>ch s s'. tag ch = ''channel'' \<Longrightarrow> shape r0 M s \<Longrightarrow> merge_channel iter ch s = Inr s'
      \<Longrightarrow> shape r0 M s'"
    by (rule shape_merge_channel)
  show "\<And>p s. tag p = ''programme'' \<Longrightarrow> shape r0 M s \<Longrightarrow> shape r0 M (remap_programme p s)"
    by (rule shape_frame) (simp_all add: remap_programme_frame)
  show "\<And>s msgs. shape r0 M s \<Longrightarrow> shape r0 M (s\<lparr>log := log s @ msgs\<rparr>)"
    by (rule shape_frame) simp_all
qed

lemma merge_files_InrE:
  assumes "merge_files iter fs d out files = Inr (msgs, w)"
  obtains f rest B st1 r1 where
    "files = f # rest" "fs f = Document B"
    "merge_loop iter fs d (Suc 0) rest (ingest_base iter d B (init_state [Merging files out])) = Inr st1"
    "base_root st1 = Some r1"
    "w = Some (out, set_children (remove_programmes r1)
          (reinsert (programmes_map st1) 0 (findall (remove_programmes r1) ''channel'')
             (children (remove_programmes r1))))"
    "msgs = log st1 @ [MergeDone out]"
    "dirname out \<noteq> []"
proof (cases files)
  case Nil
  with assms show ?thesis
    by (simp add: merge_files_def reassemble_def init_state_def)
next
  case (Cons f rest)
  show ?thesis
  proof (cases "fs f")
    case Missing
    with missing_base_aux [of fs f iter d out rest] assms Cons show ?thesis by auto
  next
    case Unparseable
    with missing_base_aux [of fs f iter d out rest] assms Cons show ?thesis by auto
  next
    case (Document B)
    let ?st0 = "ingest_base iter d B (init_state [Merging files out])"
    from assms Cons Document obtain st1 where
      st1: "merge_loop iter fs d (Suc 0) rest ?st0 = Inr st1"
      by (auto simp: merge_files_def parse_tree_def split: sum.splits)
    with assms Cons Document obtain r1 where r1: "base_root st1 = Some r1"
      by (auto simp: merge_files_def parse_tree_def reassemble_def split: sum.splits option.splits)
    from assms Cons Document st1 r1 have
      "w = Some (out, set_children (remove_programmes r1)
          (reinsert (programmes_map st1) 0 (findall (remove_programmes r1) ''channel'')
             (children (remove_programmes r1))))" "msgs = log st1 @ [MergeDone out]"
      "dirname out \<noteq> []"
      by (auto simp: merge_files_def parse_tree_def reassemble_def Let_def split: if_splits)
    with Cons Document st1 r1 show ?thesis by (rule that)
  qed
qed

text \<open>
  Without a directory part in the output path \<^verbatim>\<open>merge_files\<close> never returns: what
  line 168 raises ends it, after the merge and before anything is written.
\<close>

lemma merge_files_needs_directory:
  assumes "merge_files iter fs d out files = Inr r"
  shows "dirname out \<noteq> []"
proof -
  obtain msgs w where r: "r = (msgs, w)" by (cases r)
  from assms [unfolded r] show ?thesis
    by (rule merge_files_InrE)
qed

lemma no_directory_part_raises:
  "merge_files remdups ((\<lambda>_. Missing)(''base.xml'' := tv [channel_el ''1'' [''A'']]))
     ''20240101000000'' ''out.xml'' [''base.xml'']
   = Inl (FileNotFoundError, [Merging [''base.xml''] ''out.xml''])"
  by code_simp

section \<open>Putting the programmes back\<close>

lemma insert_programmes_eq:
  "pos \<le> length xs \<Longrightarrow> insert_programmes pos ps xs = take pos xs @ ps @ drop pos xs"
proof (induction ps arbitrary: pos xs)
  case Nil
  show ?case by simp
next
  case (Cons p ps)
  have "insert_programmes pos (p # ps) xs = insert_programmes (pos + 1) ps (take pos xs @ p # drop pos xs)"
    by (simp add: insert_at_def)
  also have "\<dots> = take (pos + 1) (take pos xs @ p # drop pos xs) @ ps
      @ drop (pos + 1) (take pos xs @ p # drop pos xs)"
    using Cons.prems by (intro Cons.IH) simp
  also have "\<dots> = take pos xs @ (p # ps) @ drop pos xs"
    using Cons.prems by (simp add: min_absorb2)
  finally show ?case .
qed

lemma index_of_channel_at:
  "length (filter (\<lambda>c. tag c = ''channel'') pre) = k \<Longrightarrow> tag y = ''channel''
     \<Longrightarrow> index_of_channel k (pre @ y # ys) = length pre"
  by (induction pre arbitrary: k) (auto split: nat.splits)

lemma interleave_Cons:
  "interleave pm (c # cs) =
     (if tag c = ''channel'' then c # programmes_of pm (get c ''id'') else [c]) @ interleave pm cs"
  by (simp add: interleave_def)

lemma reinsert_interleave:
  assumes "\<And>c. \<forall>p\<in>set (programmes_of pm c). tag p \<noteq> ''channel''"
  shows "length (filter (\<lambda>c. tag c = ''channel'') pre) = k
     \<Longrightarrow> reinsert pm k (filter (\<lambda>c. tag c = ''channel'') ys) (pre @ ys) = pre @ interleave pm ys"
proof (induction ys arbitrary: pre k)
  case Nil
  show ?case by (simp add: interleave_def)
next
  case (Cons y ys)
  show ?case
  proof (cases "tag y = ''channel''")
    case False
    have "length (filter (\<lambda>c. tag c = ''channel'') (pre @ [y])) = k"
      using Cons.prems False by simp
    from Cons.IH [OF this] False show ?thesis
      by (simp add: interleave_Cons)
  next
    case True
    let ?ps = "programmes_of pm (get y ''id'')"
    have pos: "index_of_channel k (pre @ y # ys) = length pre"
      using Cons.prems True by (rule index_of_channel_at)
    have ins: "insert_programmes (length pre + 1) ?ps (pre @ y # ys) = (pre @ y # ?ps) @ ys"
      by (subst insert_programmes_eq) simp_all
    have "length (filter (\<lambda>c. tag c = ''channel'') (pre @ y # ?ps)) = Suc k"
      using Cons.prems True assms [of "get y ''id''"] by (simp add: filter_empty_conv)
    from Cons.IH [OF this] True pos ins show ?thesis
      by (simp add: interleave_Cons Let_def)
  qed
qed

lemma programmes_of_memD:
  assumes "p \<in> set (programmes_of pm c)"
  obtains k ps where "c = Some k" "pm k = Some ps" "p \<in> set ps"
proof (cases c)
  case None
  with assms show ?thesis by (simp add: programmes_of_def)
next
  case (Some k)
  with assms obtain ps where "pm k = Some ps" "p \<in> set ps"
    by (cases "pm k") (simp_all add: programmes_of_def)
  with Some show ?thesis by (rule that)
qed

lemma programmes_ok_not_channel:
  assumes "programmes_ok pm"
  shows "\<forall>p\<in>set (programmes_of pm c). tag p \<noteq> ''channel''"
proof
  fix p assume p: "p \<in> set (programmes_of pm c)"
  then obtain k ps where "c = Some k" "pm k = Some ps" "p \<in> set ps"
    by (rule programmes_of_memD)
  with assms have "tag p = ''programme''"
    by (auto simp: programmes_ok_def list_all_iff)
  then show "tag p \<noteq> ''channel''" by simp
qed

lemma reassembled_children:
  assumes "programmes_ok pm"
  shows "reinsert pm 0 (findall r ''channel'') (children r) = interleave pm (children r)"
  using reinsert_interleave [of pm "[]" 0 "children r"] programmes_ok_not_channel [OF assms]
  by (simp add: findall_def)

lemma str_nat_not_Nil: "str_nat n \<noteq> []"
  by (subst str_nat.simps) simp

lemma decimal_not_Nil: "decimal i \<noteq> []"
  by (simp add: decimal_def str_nat_not_Nil)

lemma programmes_ok_upd_Nil: "programmes_ok pm \<Longrightarrow> c \<noteq> [] \<Longrightarrow> programmes_ok (pm(c \<mapsto> []))"
  by (simp add: programmes_ok_def)

lemma programmes_ok_ingest_channels:
  "programmes_ok (programmes_map st)
     \<Longrightarrow> programmes_ok (programmes_map (ingest_channels iter k chs st))"
  by (induction chs arbitrary: k st)
     (auto simp: ingest_channel_def programmes_ok_upd_Nil split: option.splits)

lemma programmes_ok_collect:
  "programmes_ok pm \<Longrightarrow> tag p = ''programme'' \<Longrightarrow> programmes_ok (collect_programme p pm)"
  by (auto simp: collect_programme_def programmes_ok_def split: option.splits)

lemma programmes_ok_fold_collect:
  "programmes_ok pm \<Longrightarrow> \<forall>p\<in>set ps. tag p = ''programme''
     \<Longrightarrow> programmes_ok (fold collect_programme ps pm)"
  by (induction ps arbitrary: pm) (simp_all add: programmes_ok_collect)

lemma programmes_ok_ingest_base:
  "programmes_ok (programmes_map (ingest_base iter d B (init_state msgs)))"
  unfolding ingest_base_programmes_map
  by (rule programmes_ok_fold_collect, rule programmes_ok_ingest_channels)
     (simp_all add: programmes_ok_def init_state_def findall_def)

lemma programmes_ok_merge_channel:
  assumes "programmes_ok (programmes_map st)" "merge_channel iter ch st = Inr st'"
  shows "programmes_ok (programmes_map st')"
  using assms(2,1)
  by (cases rule: merge_channel_InrE) (simp_all add: programmes_ok_upd_Nil decimal_not_Nil)

lemma programmes_ok_remap:
  assumes "programmes_ok (programmes_map st)" "tag p = ''programme''"
  shows "programmes_ok (programmes_map (remap_programme p st))"
  using assms
  by (auto simp: remap_programme_def programmes_ok_def Let_def set_attr_def get_def update_conv'
      split: option.splits)

lemma programmes_ok_merge_loop:
  assumes "merge_loop iter fs d (Suc idx) files st = Inr st'"
    and "programmes_ok (programmes_map st)"
  shows "programmes_ok (programmes_map st')"
  by (rule merge_loop_invariant [where P = "\<lambda>s. programmes_ok (programmes_map s)", OF assms])
     (simp_all add: programmes_ok_merge_channel programmes_ok_remap)

section \<open>Numbers as strings\<close>

lemma digit_char:
  assumes "n < 10"
  shows "is_digit (char_of (48 + n))" "digit_val (char_of (48 + n)) = n"
    "\<not> is_int_space (char_of (48 + n))" "char_of (48 + n) \<noteq> CHR ''-''" "char_of (48 + n) \<noteq> CHR ''+''"
proof -
  have v: "(of_char (char_of (48 + n)) :: nat) = 48 + n"
    using assms by simp
  show "is_digit (char_of (48 + n))" unfolding is_digit_def v using assms by simp
  show "digit_val (char_of (48 + n)) = n" unfolding digit_val_def v by simp
  show "\<not> is_int_space (char_of (48 + n))" unfolding is_int_space_def Let_def v using assms by simp
  have "(of_char (char_of (48 + n)) :: nat) \<noteq> of_char CHR ''-''" unfolding v by simp
  then show "char_of (48 + n) \<noteq> CHR ''-''" by metis
  have "(of_char (char_of (48 + n)) :: nat) \<noteq> of_char CHR ''+''" unfolding v by simp
  then show "char_of (48 + n) \<noteq> CHR ''+''" by metis
qed

lemma parse_digits_all:
  "list_all is_digit ds \<Longrightarrow>
     parse_digits acc ds = Some (foldl (\<lambda>a c. a * 10 + digit_val c) acc ds)"
  by (induction acc ds rule: parse_digits.induct) simp_all

lemma str_nat_digits: "list_all is_digit (str_nat n)"
proof (induction n rule: str_nat.induct)
  case (1 n)
  show ?case
  proof (cases "n < 10")
    case True
    then show ?thesis by (subst str_nat.simps) (simp add: digit_char)
  next
    case False
    with 1 show ?thesis by (subst str_nat.simps) (simp add: digit_char)
  qed
qed

lemma str_nat_value: "foldl (\<lambda>a c. a * 10 + digit_val c) 0 (str_nat n) = n"
proof (induction n rule: str_nat.induct)
  case (1 n)
  show ?case
  proof (cases "n < 10")
    case True
    then show ?thesis by (subst str_nat.simps) (simp add: digit_char)
  next
    case False
    with 1 show ?thesis by (subst str_nat.simps) (simp add: digit_char)
  qed
qed

lemma str_nat_ends: "\<not> is_int_space (hd (str_nat n))" "\<not> is_int_space (last (str_nat n))"
    "hd (str_nat n) \<noteq> CHR ''-''" "hd (str_nat n) \<noteq> CHR ''+''"
proof -
  have d: "\<And>c. is_digit c \<Longrightarrow> \<not> is_int_space c \<and> c \<noteq> CHR ''-'' \<and> c \<noteq> CHR ''+''"
    by (auto simp: is_digit_def is_int_space_def Let_def)
  have ne: "str_nat n \<noteq> []" by (subst str_nat.simps) simp
  have "is_digit (hd (str_nat n))" "is_digit (last (str_nat n))"
    using str_nat_digits [of n] ne by (auto simp: list_all_iff)
  with d show "\<not> is_int_space (hd (str_nat n))" "\<not> is_int_space (last (str_nat n))"
    "hd (str_nat n) \<noteq> CHR ''-''" "hd (str_nat n) \<noteq> CHR ''+''" by blast+
qed

lemma strip_id:
  assumes "s \<noteq> []" "\<not> is_space (hd s)" "\<not> is_space (last s)"
  shows "strip s = s"
proof -
  have a: "dropWhile is_space s = s"
    using assms(1,2) by (cases s) simp_all
  have "dropWhile is_space (rev s) = rev s"
    using assms(1,3) by (cases "rev s") (simp_all add: last_rev [symmetric] del: last_rev)
  then show ?thesis by (simp add: strip_def a)
qed

lemma int_strip_id:
  assumes "s \<noteq> []" "\<not> is_int_space (hd s)" "\<not> is_int_space (last s)"
  shows "int_strip s = s"
proof -
  have a: "dropWhile is_int_space s = s"
    using assms(1,2) by (cases s) simp_all
  have "dropWhile is_int_space (rev s) = rev s"
    using assms(1,3) by (cases "rev s") (simp_all add: last_rev [symmetric] del: last_rev)
  then show ?thesis by (simp add: int_strip_def a)
qed

lemma parse_nat_str_nat: "parse_nat (str_nat n) = Some n"
proof -
  let ?s = "str_nat n"
  have ne: "?s \<noteq> []" by (subst str_nat.simps) simp
  then obtain c cs where s: "?s = c # cs" by (cases ?s) auto
  have c: "is_digit c" "list_all is_digit cs"
    using str_nat_digits [of n] by (simp_all add: s)
  have "parse_nat ?s = Some (foldl (\<lambda>a c. a * 10 + digit_val c) 0 ?s)"
    unfolding s using c by (simp add: parse_nat_def parse_digits_all)
  then show ?thesis by (simp add: str_nat_value)
qed

lemma py_int_decimal:
  assumes "0 \<le> n" "str n = Some (decimal n)"
  shows "py_int (decimal n) = Some n"
proof -
  let ?s = "str_nat (nat n)"
  have ne: "?s \<noteq> []" by (subst str_nat.simps) simp
  then obtain c cs where s: "?s = c # cs" by (cases ?s) auto
  have st: "int_strip ?s = ?s"
    using ne str_nat_ends(1,2) by (rule int_strip_id)
  have c: "c \<noteq> CHR ''-''" "c \<noteq> CHR ''+''"
    using str_nat_ends(3,4) [of "nat n"] by (simp_all add: s)
  have fit: "\<not> max_str_digits < length ?s"
    using assms by (simp add: str_def split: if_splits)
  have "filter is_digit ?s = ?s"
    using str_nat_digits [of "nat n"] by (simp add: filter_id_conv list_all_iff)
  with fit have fl: "\<not> max_str_digits < length (filter is_digit ?s)"
    by simp
  have d: "decimal n = ?s"
    using assms(1) by (simp add: decimal_def)
  have "py_int ?s = map_option int (parse_nat ?s)"
    unfolding py_int_def Let_def st using fl c by (simp add: s)
  also have "\<dots> = Some n"
    using assms(1) by (simp add: parse_nat_str_nat)
  finally show ?thesis
    unfolding d .
qed

text \<open>
  The limit at work: \<^verbatim>\<open>int\<close> refuses 4301 nines, so a base channel with that id
  does not count for the maximum.
\<close>

lemma py_int_limit:
  "max_str_digits < length (filter is_digit (int_strip s)) \<Longrightarrow> py_int s = None"
  by (simp add: py_int_def)

lemma py_int_long_id: "py_int (replicate 4301 CHR ''9'') = None"
proof (rule py_int_limit)
  have d: "is_digit CHR ''9''" "\<not> is_int_space CHR ''9''"
    by (simp_all add: is_digit_def is_int_space_def)
  have "int_strip (replicate 4301 CHR ''9'') = replicate 4301 CHR ''9''"
    using d(2) by (intro int_strip_id) simp_all
  then show "max_str_digits < length (filter is_digit (int_strip (replicate 4301 CHR ''9'')))"
    using d(1) by (simp add: max_str_digits_def)
qed

lemma ingest_channel_max:
  "max_id (ingest_channel iter k ch st) =
     (case get ch ''id'' of
        None \<Rightarrow> max_id st
      | Some cid \<Rightarrow>
          if cid = [] then max_id st
          else (case py_int cid of None \<Rightarrow> max_id st | Some v \<Rightarrow> max (max_id st) v))"
  by (simp add: ingest_channel_def split: option.splits)

lemma ingest_channels_max:
  "max_id st \<le> max_id (ingest_channels iter k chs st)
   \<and> (\<forall>ch\<in>set chs. \<forall>cid v. get ch ''id'' = Some cid \<and> cid \<noteq> [] \<and> py_int cid = Some v
         \<longrightarrow> v \<le> max_id (ingest_channels iter k chs st))
   \<and> (max_id (ingest_channels iter k chs st) = max_id st
      \<or> (\<exists>ch\<in>set chs. \<exists>cid. get ch ''id'' = Some cid \<and> cid \<noteq> []
            \<and> py_int cid = Some (max_id (ingest_channels iter k chs st))))"
proof (induction chs arbitrary: k st)
  case Nil
  show ?case by simp
next
  case (Cons ch chs)
  let ?s = "ingest_channel iter k ch st"
  note ih = Cons [where k = "Suc k" and st = ?s]
  have m: "max_id st \<le> max_id ?s"
    "\<forall>cid v. get ch ''id'' = Some cid \<and> cid \<noteq> [] \<and> py_int cid = Some v \<longrightarrow> v \<le> max_id ?s"
    "max_id ?s = max_id st \<or> (\<exists>cid. get ch ''id'' = Some cid \<and> cid \<noteq> [] \<and> py_int cid = Some (max_id ?s))"
    by (auto simp: ingest_channel_max max_def split: option.splits)
  show ?case
  proof (intro conjI)
    show "max_id st \<le> max_id (ingest_channels iter k (ch # chs) st)"
      using ih m(1) by simp
    show "\<forall>c\<in>set (ch # chs). \<forall>cid v. get c ''id'' = Some cid \<and> cid \<noteq> [] \<and> py_int cid = Some v
         \<longrightarrow> v \<le> max_id (ingest_channels iter k (ch # chs) st)"
      using ih m(2) by (simp, force)
    show "max_id (ingest_channels iter k (ch # chs) st) = max_id st
      \<or> (\<exists>c\<in>set (ch # chs). \<exists>cid. get c ''id'' = Some cid \<and> cid \<noteq> []
            \<and> py_int cid = Some (max_id (ingest_channels iter k (ch # chs) st)))"
      using ih m(3) by (simp, metis)
  qed
qed

lemma ingest_base_max:
  "max_id (ingest_base iter d B st) = max_id (ingest_channels iter 0 (findall B ''channel'') st)"
  by (simp add: ingest_base_def Let_def findall_stamp_root)

lemma base_max:
  fixes iter d B msgs
  defines "M \<equiv> max_id (ingest_base iter d B (init_state msgs))"
  shows "0 \<le> M" "M = 0 \<or> M \<in> numeric_ids B" "\<forall>v\<in>numeric_ids B. v \<le> M"
proof -
  let ?st = "init_state msgs"
  have z: "max_id ?st = 0" by (simp add: init_state_def)
  note f = ingest_channels_max [of ?st iter 0 "findall B ''channel''", folded ingest_base_max [of iter d B ?st] M_def, unfolded z]
  from f show "0 \<le> M" by blast
  from f show "M = 0 \<or> M \<in> numeric_ids B" unfolding numeric_ids_def by blast
  from f show "\<forall>v\<in>numeric_ids B. v \<le> M" unfolding numeric_ids_def by blast
qed

section \<open>The tree written\<close>

lemma list_all2_grown_tags:
  "list_all2 grown xs ys \<Longrightarrow> map tag ys = map tag xs"
  by (induction rule: list_all2_induct) (simp_all add: grown_def)

lemma list_all2_grown_filter:
  "list_all2 grown xs ys \<Longrightarrow>
     list_all2 grown (filter (\<lambda>c. tag c = t) xs) (filter (\<lambda>c. tag c = t) ys)"
  by (induction rule: list_all2_induct) (auto simp: grown_def)

lemma filter_tag_map:
  "filter (\<lambda>c. P (tag c)) xs = xs \<longleftrightarrow> list_all P (map tag xs)"
  by (induction xs) (auto simp: filter_id_conv list_all_iff dest: filter_eq_ConsD)

lemma interleave_channels:
  assumes "programmes_ok pm"
  shows "filter (\<lambda>c. tag c = ''channel'') (interleave pm xs) = filter (\<lambda>c. tag c = ''channel'') xs"
proof (induction xs)
  case Nil
  show ?case by (simp add: interleave_def)
next
  case (Cons x xs)
  have "filter (\<lambda>c. tag c = ''channel'') (programmes_of pm (get x ''id'')) = []"
    using programmes_ok_not_channel [OF assms, of "get x ''id''"] by (simp add: filter_empty_conv)
  with Cons show ?case by (simp add: interleave_Cons)
qed

lemma new_channels_tags:
  assumes "map (\<lambda>c. (tag c, get c ''id'')) news =
      map (\<lambda>j. (''channel'', Some (decimal (M + 1 + int j)))) [0..<length news]"
  shows "\<forall>c\<in>set news. tag c = ''channel''"
    and "map (\<lambda>c. get c ''id'') news = map (\<lambda>j. Some (decimal (M + 1 + int j))) [0..<length news]"
proof -
  have "map fst (map (\<lambda>c. (tag c, get c ''id'')) news) =
      map fst (map (\<lambda>j. (''channel'', Some (decimal (M + 1 + int j)))) [0..<length news])"
    using assms by simp
  then have "map tag news = map (\<lambda>j. ''channel'') [0..<length news]"
    by (simp add: comp_def)
  then have "set (map tag news) \<subseteq> {''channel''}"
    by auto
  then show "\<forall>c\<in>set news. tag c = ''channel''" by auto
  have "map snd (map (\<lambda>c. (tag c, get c ''id'')) news) =
      map snd (map (\<lambda>j. (''channel'', Some (decimal (M + 1 + int j)))) [0..<length news])"
    using assms by simp
  then show "map (\<lambda>c. get c ''id'') news = map (\<lambda>j. Some (decimal (M + 1 + int j))) [0..<length news]"
    by (simp add: comp_def)
qed

lemma merge_files_shape:
  assumes run: "merge_files iter fs d out (f # rest) = Inr (msgs, Some (out', R))"
    and doc: "fs f = Document B"
  obtains st1 r1 zs news where
    "merge_loop iter fs d (Suc 0) rest
       (ingest_base iter d B (init_state [Merging (f # rest) out])) = Inr st1"
    "base_root st1 = Some r1"
    "R = set_children r1 (interleave (programmes_map st1) (children r1))"
    "programmes_ok (programmes_map st1)"
    "tag r1 = tag B" "attrib r1 = attrib (stamp_root d B)"
    "text_of r1 = text_of B" "tail r1 = tail B"
    "children r1 = zs @ news"
    "list_all2 grown (filter (\<lambda>c. tag c \<noteq> ''programme'') (children B)) zs"
    "map (\<lambda>c. (tag c, get c ''id'')) news =
       map (\<lambda>j. (''channel'', Some (decimal
          (max_id (ingest_base iter d B (init_state [Merging (f # rest) out])) + 1 + int j))))
         [0..<length news]"
    "msgs = log st1 @ [MergeDone out]"
    "\<forall>j<length news. str
       (max_id (ingest_base iter d B (init_state [Merging (f # rest) out])) + 1 + int j) =
         Some (decimal
           (max_id (ingest_base iter d B (init_state [Merging (f # rest) out])) + 1 + int j))"
proof -
  let ?st0 = "ingest_base iter d B (init_state [Merging (f # rest) out])"
  let ?r0 = "remove_programmes (stamp_root d B)"
  from run obtain f' rest' B' st1 r1 where d:
    "f # rest = f' # rest'" "fs f' = Document B'"
    "merge_loop iter fs d (Suc 0) rest' (ingest_base iter d B' (init_state [Merging (f # rest) out])) = Inr st1"
    "base_root st1 = Some r1"
    "Some (out', R) = Some (out, set_children (remove_programmes r1)
          (reinsert (programmes_map st1) 0 (findall (remove_programmes r1) ''channel'')
             (children (remove_programmes r1))))"
    "msgs = log st1 @ [MergeDone out]"
    "dirname out \<noteq> []"
    by (rule merge_files_InrE)
  from d(1,2) doc have eq: "f' = f" "rest' = rest" "B' = B" by simp_all
  note loop = d(3) [unfolded eq]
  have ok: "programmes_ok (programmes_map st1)"
    using loop by (rule programmes_ok_merge_loop) (rule programmes_ok_ingest_base)
  have "shape ?r0 (max_id ?st0) st1"
    using loop by (rule shape_merge_loop) (rule shape_ingest_base)
  then obtain zs news where s:
    "tag r1 = tag ?r0" "attrib r1 = attrib ?r0" "text_of r1 = text_of ?r0" "tail r1 = tail ?r0"
    "children r1 = zs @ news" "list_all2 grown (children ?r0) zs"
    "map (\<lambda>c. (tag c, get c ''id'')) news =
       map (\<lambda>j. (''channel'', Some (decimal (max_id ?st0 + 1 + int j)))) [0..<length news]"
    "\<forall>j<length news. str (max_id ?st0 + 1 + int j) = Some (decimal (max_id ?st0 + 1 + int j))"
    unfolding shape_def using d(4) by auto
  have r0: "tag ?r0 = tag B" "attrib ?r0 = attrib (stamp_root d B)" "text_of ?r0 = text_of B"
    "tail ?r0 = tail B" "children ?r0 = filter (\<lambda>c. tag c \<noteq> ''programme'') (children B)"
    by (simp_all add: remove_programmes_def set_children_def stamp_root_def Let_def set_attr_def)
  have "map tag zs = map tag (filter (\<lambda>c. tag c \<noteq> ''programme'') (children B))"
    using list_all2_grown_tags [OF s(6)] r0(5) by simp
  then have "list_all (\<lambda>t. t \<noteq> ''programme'') (map tag zs)"
    by (simp add: list_all_iff)
  then have z: "filter (\<lambda>c. tag c \<noteq> ''programme'') zs = zs"
    using filter_tag_map [of "\<lambda>t. t \<noteq> ''programme''" zs] by simp
  have n: "filter (\<lambda>c. tag c \<noteq> ''programme'') news = news"
    using new_channels_tags(1) [OF s(7)] by (simp add: filter_id_conv)
  have "filter (\<lambda>c. tag c \<noteq> ''programme'') (children r1) = children r1"
    unfolding s(5) by (simp add: z n)
  then have rp: "remove_programmes r1 = r1"
    by (simp add: remove_programmes_def set_children_def)
  have R: "R = set_children r1 (interleave (programmes_map st1) (children r1))"
    using d(5) by (simp add: rp reassembled_children [OF ok])
  show ?thesis
    using loop d(4) R ok s(1-4) [unfolded r0] s(5) s(6) [unfolded r0] s(7) d(6) s(8)
    by (rule that)
qed

section \<open>Root attributes, channel order and new ids\<close>

lemma result_channels:
  assumes run: "merge_files iter fs d out (f # rest) = Inr (msgs, Some (out', R))"
    and doc: "fs f = Document B"
  obtains zs news where
    "findall R ''channel'' = zs @ news"
    "list_all2 grown (findall B ''channel'') zs"
    "map (\<lambda>c. get c ''id'') news =
       map (\<lambda>j. Some (decimal
          (max_id (ingest_base iter d B (init_state [Merging (f # rest) out])) + 1 + int j)))
         [0..<length news]"
    "\<forall>j<length news. str
       (max_id (ingest_base iter d B (init_state [Merging (f # rest) out])) + 1 + int j) =
         Some (decimal
           (max_id (ingest_base iter d B (init_state [Merging (f # rest) out])) + 1 + int j))"
proof -
  obtain st1 r1 zs news where s:
    "merge_loop iter fs d (Suc 0) rest
       (ingest_base iter d B (init_state [Merging (f # rest) out])) = Inr st1"
    "base_root st1 = Some r1"
    "R = set_children r1 (interleave (programmes_map st1) (children r1))"
    "programmes_ok (programmes_map st1)"
    "tag r1 = tag B" "attrib r1 = attrib (stamp_root d B)"
    "text_of r1 = text_of B" "tail r1 = tail B"
    "children r1 = zs @ news"
    "list_all2 grown (filter (\<lambda>c. tag c \<noteq> ''programme'') (children B)) zs"
    "map (\<lambda>c. (tag c, get c ''id'')) news =
       map (\<lambda>j. (''channel'', Some (decimal
          (max_id (ingest_base iter d B (init_state [Merging (f # rest) out])) + 1 + int j))))
         [0..<length news]"
    "msgs = log st1 @ [MergeDone out]"
    "\<forall>j<length news. str
       (max_id (ingest_base iter d B (init_state [Merging (f # rest) out])) + 1 + int j) =
         Some (decimal
           (max_id (ingest_base iter d B (init_state [Merging (f # rest) out])) + 1 + int j))"
    by (rule merge_files_shape [OF run doc])
  let ?ch = "\<lambda>c. tag c = ''channel''"
  have n: "filter ?ch news = news"
    using new_channels_tags(1) [OF s(11)] by (simp add: filter_id_conv)
  have a: "findall R ''channel'' = filter ?ch zs @ news"
    by (simp add: s(3) findall_def set_children_def interleave_channels [OF s(4)] s(9) n)
  have "filter ?ch (filter (\<lambda>c. tag c \<noteq> ''programme'') (children B)) = filter ?ch (children B)"
    by (auto intro: filter_cong)
  then have b: "list_all2 grown (findall B ''channel'') (filter ?ch zs)"
    using list_all2_grown_filter [OF s(10), of "''channel''"] by (simp add: findall_def)
  from a b new_channels_tags(2) [OF s(11)] s(13) show ?thesis by (rule that)
qed

lemma result_root:
  assumes run: "merge_files iter fs d out (f # rest) = Inr (msgs, Some (out', R))"
    and doc: "fs f = Document B"
  shows "tag R = tag B" "attrib R = attrib (stamp_root d B)"
    "text_of R = text_of B" "tail R = tail B"
proof -
  obtain st1 r1 zs news where s:
    "merge_loop iter fs d (Suc 0) rest
       (ingest_base iter d B (init_state [Merging (f # rest) out])) = Inr st1"
    "base_root st1 = Some r1"
    "R = set_children r1 (interleave (programmes_map st1) (children r1))"
    "programmes_ok (programmes_map st1)"
    "tag r1 = tag B" "attrib r1 = attrib (stamp_root d B)"
    "text_of r1 = text_of B" "tail r1 = tail B"
    "children r1 = zs @ news"
    "list_all2 grown (filter (\<lambda>c. tag c \<noteq> ''programme'') (children B)) zs"
    "map (\<lambda>c. (tag c, get c ''id'')) news =
       map (\<lambda>j. (''channel'', Some (decimal
          (max_id (ingest_base iter d B (init_state [Merging (f # rest) out])) + 1 + int j))))
         [0..<length news]"
    "msgs = log st1 @ [MergeDone out]"
    "\<forall>j<length news. str
       (max_id (ingest_base iter d B (init_state [Merging (f # rest) out])) + 1 + int j) =
         Some (decimal
           (max_id (ingest_base iter d B (init_state [Merging (f # rest) out])) + 1 + int j))"
    by (rule merge_files_shape [OF run doc])
  show "tag R = tag B" "attrib R = attrib (stamp_root d B)"
    "text_of R = text_of B" "tail R = tail B"
    by (simp_all add: s(3,5-8) set_children_def)
qed

text \<open>
  Claim C10. On the root the merge sets the three attributes and leaves every other
  attribute, the tag, the text and the tail as they were in the base document. The
  channels of the tree written start with the channels of the base document, in their
  order, each with no change but display-name children appended; the channels that were
  introduced come after them.
\<close>

theorem root_attributes_and_channel_order:
  assumes "merge_files iter fs d out (f # rest) = Inr (msgs, Some (out', R))"
    and "fs f = Document B"
  shows "tag R = tag B \<and> text_of R = text_of B \<and> tail R = tail B
       \<and> get R ''generator-info-name'' = Some ''tvsilo.vip''
       \<and> get R ''generator-info-url'' = Some ''https://github.com/g12777/TV''
       \<and> get R ''date'' = Some d
       \<and> (\<forall>k. k \<notin> {''generator-info-name'', ''generator-info-url'', ''date''}
              \<longrightarrow> get R k = get B k)
       \<and> (\<exists>zs news. findall R ''channel'' = zs @ news
              \<and> list_all2 grown (findall B ''channel'') zs)"
proof -
  note r = result_root [OF assms]
  have g: "\<And>k. get R k = map_of (attrib (stamp_root d B)) k"
    by (simp add: r(2) get_def)
  obtain zs news where c: "findall R ''channel'' = zs @ news"
    "list_all2 grown (findall B ''channel'') zs"
    "map (\<lambda>c. get c ''id'') news =
       map (\<lambda>j. Some (decimal
          (max_id (ingest_base iter d B (init_state [Merging (f # rest) out])) + 1 + int j)))
         [0..<length news]"
    "\<forall>j<length news. str
       (max_id (ingest_base iter d B (init_state [Merging (f # rest) out])) + 1 + int j) =
         Some (decimal
           (max_id (ingest_base iter d B (init_state [Merging (f # rest) out])) + 1 + int j))"
    by (rule result_channels [OF assms])
  have "tag R = tag B \<and> text_of R = text_of B \<and> tail R = tail B"
    by (simp add: r)
  moreover have "get R ''generator-info-name'' = Some ''tvsilo.vip''
       \<and> get R ''generator-info-url'' = Some ''https://github.com/g12777/TV''
       \<and> get R ''date'' = Some d"
    by (simp add: g stamp_root_def Let_def set_attr_def update_conv')
  moreover have "\<forall>k. k \<notin> {''generator-info-name'', ''generator-info-url'', ''date''}
              \<longrightarrow> get R k = get B k"
    unfolding g by (simp add: stamp_root_def Let_def set_attr_def update_conv' get_def)
  ultimately show ?thesis using c(1,2) by blast
qed

theorem root_attributes_and_channel_order_witness:
  "get (Element ''tv'' [(''source-info-name'', ''x''), (''generator-info-name'', ''tvsilo.vip''),
          (''generator-info-url'', ''https://github.com/g12777/TV''), (''date'', ''20240101000000'')]
          None None [channel_el ''5'' [''BBC''], channel_el ''6'' [''Fox'']]) ''source-info-name''
     = Some ''x''
   \<and> (\<exists>zs news.
         findall (Element ''tv'' [(''source-info-name'', ''x''), (''generator-info-name'', ''tvsilo.vip''),
           (''generator-info-url'', ''https://github.com/g12777/TV''), (''date'', ''20240101000000'')]
           None None [channel_el ''5'' [''BBC''], channel_el ''6'' [''Fox'']]) ''channel'' = zs @ news
       \<and> list_all2 grown [channel_el ''5'' [''BBC'']] zs)"
proof -
  define B where "B = Element ''tv'' [(''source-info-name'', ''x''), (''generator-info-name'', ''old'')]
              None None [channel_el ''5'' [''BBC'']]"
  define fs where "fs = (\<lambda>_. Missing)(''base.xml'' := Document B,
               ''second.xml'' := tv [channel_el ''2'' [''Fox'']])"
  define R where "R = Element ''tv'' [(''source-info-name'', ''x''), (''generator-info-name'', ''tvsilo.vip''),
          (''generator-info-url'', ''https://github.com/g12777/TV''), (''date'', ''20240101000000'')]
          None None [channel_el ''5'' [''BBC''], channel_el ''6'' [''Fox'']]"
  have run: "merge_files remdups fs ''20240101000000'' ''out/out.xml'' [''base.xml'', ''second.xml'']
      = Inr ([Merging [''base.xml'', ''second.xml''] ''out/out.xml'', MergeDone ''out/out.xml''],
             Some (''out/out.xml'', R))"
    unfolding fs_def B_def R_def by code_simp
  have doc: "fs ''base.xml'' = Document B" by (simp add: fs_def)
  note t = root_attributes_and_channel_order [OF run doc]
  have k: "''source-info-name'' \<notin> {''generator-info-name'', ''generator-info-url'', ''date''}"
    by simp
  note t6 = t [THEN conjunct2, THEN conjunct2, THEN conjunct2, THEN conjunct2, THEN conjunct2,
      THEN conjunct2]
  have a: "get R ''source-info-name'' = get B ''source-info-name''"
    by (rule t6 [THEN conjunct1, THEN spec, THEN mp]) (rule k)
  have b: "get B ''source-info-name'' = Some ''x''" by (simp add: get_def B_def)
  have c: "\<exists>zs news. findall R ''channel'' = zs @ news
       \<and> list_all2 grown (findall B ''channel'') zs"
    by (rule t6 [THEN conjunct2])
  have d: "findall B ''channel'' = [channel_el ''5'' [''BBC'']]" by (simp add: findall_def B_def)
  from a b c have "get R ''source-info-name'' = Some ''x''
      \<and> (\<exists>zs news. findall R ''channel'' = zs @ news
       \<and> list_all2 grown [channel_el ''5'' [''BBC'']] zs)"
    unfolding d by simp
  then show ?thesis unfolding R_def .
qed

text \<open>
  Claim C4. Let \<open>M\<close> be the largest of 0 and the numeric ids of the base
  channels, where a base id counts when \<^verbatim>\<open>int\<close> accepts it: an id that
  \<^verbatim>\<open>int\<close> refuses, a string of more than 4300 digits among them, does not count.
  The channels introduced by the merge follow the base channels, and the \<open>j\<close>-th of
  them, counting from 0, has the id that \<^verbatim>\<open>str\<close> gives for \<open>M + 1 + j\<close>, which
  reads back as that integer: the new ids are above every numeric id met so far and
  count up one by one.
\<close>

theorem new_ids_count_up:
  assumes "merge_files iter fs d out (f # rest) = Inr (msgs, Some (out', R))"
    and "fs f = Document B"
  shows "\<exists>M zs news.
           findall R ''channel'' = zs @ news
         \<and> length zs = length (findall B ''channel'')
         \<and> 0 \<le> M \<and> (M = 0 \<or> M \<in> numeric_ids B) \<and> (\<forall>v\<in>numeric_ids B. v \<le> M)
         \<and> map (\<lambda>c. get c ''id'') news = map (\<lambda>j. str (M + 1 + int j)) [0..<length news]
         \<and> (\<forall>j<length news.
               \<exists>s. str (M + 1 + int j) = Some s \<and> py_int s = Some (M + 1 + int j))"
proof -
  let ?M = "max_id (ingest_base iter d B (init_state [Merging (f # rest) out]))"
  obtain zs news where c: "findall R ''channel'' = zs @ news"
    "list_all2 grown (findall B ''channel'') zs"
    "map (\<lambda>c. get c ''id'') news = map (\<lambda>j. Some (decimal (?M + 1 + int j))) [0..<length news]"
    "\<forall>j<length news. str (?M + 1 + int j) = Some (decimal (?M + 1 + int j))"
    by (rule result_channels [OF assms])
  have l: "length zs = length (findall B ''channel'')"
    using c(2) by (simp add: list_all2_lengthD)
  note m = base_max [where iter = iter and d = d and B = B and msgs = "[Merging (f # rest) out]"]
  have "map (\<lambda>j. Some (decimal (?M + 1 + int j))) [0..<length news] =
      map (\<lambda>j. str (?M + 1 + int j)) [0..<length news]"
    using c(4) by simp
  with c(3) have ids: "map (\<lambda>c. get c ''id'') news =
      map (\<lambda>j. str (?M + 1 + int j)) [0..<length news]"
    by simp
  have rb: "\<forall>j<length news.
      \<exists>s. str (?M + 1 + int j) = Some s \<and> py_int s = Some (?M + 1 + int j)"
  proof (intro allI impI)
    fix j assume "j < length news"
    with c(4) have s: "str (?M + 1 + int j) = Some (decimal (?M + 1 + int j))"
      by simp
    have "0 \<le> ?M + 1 + int j" using m(1) by simp
    then have "py_int (decimal (?M + 1 + int j)) = Some (?M + 1 + int j)"
      using s by (rule py_int_decimal)
    with s show "\<exists>s. str (?M + 1 + int j) = Some s \<and> py_int s = Some (?M + 1 + int j)"
      by simp
  qed
  from c(1) l m ids rb show ?thesis by blast
qed

theorem new_ids_count_up_witness:
  "\<exists>M zs news.
       findall (tv_out [channel_el ''5'' [''BBC''], channel_el ''x'' [''ARD''],
                  channel_el ''6'' [''Fox''], channel_el ''7'' [''Sky'']]) ''channel'' = zs @ news
     \<and> length zs = 2
     \<and> 0 \<le> M \<and> (M = 0 \<or> M \<in> numeric_ids (Element ''tv'' [] None None
                                  [channel_el ''5'' [''BBC''], channel_el ''x'' [''ARD'']]))
     \<and> map (\<lambda>c. get c ''id'') news = map (\<lambda>j. str (M + 1 + int j)) [0..<length news]"
proof -
  define B where "B = Element ''tv'' [] None None [channel_el ''5'' [''BBC''], channel_el ''x'' [''ARD'']]"
  define fs where "fs = (\<lambda>_. Missing)(''base.xml'' := Document B,
               ''second.xml'' := tv [channel_el ''2'' [''Fox''], channel_el ''5'' [''Sky'']])"
  define R where "R = tv_out [channel_el ''5'' [''BBC''], channel_el ''x'' [''ARD''],
                  channel_el ''6'' [''Fox''], channel_el ''7'' [''Sky'']]"
  have run: "merge_files remdups fs ''20240101000000'' ''out/out.xml'' [''base.xml'', ''second.xml'']
      = Inr ([Merging [''base.xml'', ''second.xml''] ''out/out.xml'', MergeDone ''out/out.xml''],
             Some (''out/out.xml'', R))"
    unfolding fs_def B_def R_def by code_simp
  have doc: "fs ''base.xml'' = Document B" by (simp add: fs_def)
  have d: "length (findall B ''channel'') = 2" by (simp add: findall_def B_def)
  from new_ids_count_up [OF run doc] obtain M zs news where
    "findall R ''channel'' = zs @ news" "length zs = 2" "0 \<le> M" "M = 0 \<or> M \<in> numeric_ids B"
    "map (\<lambda>c. get c ''id'') news = map (\<lambda>j. str (M + 1 + int j)) [0..<length news]"
    unfolding d by blast
  then have "\<exists>M zs news. findall R ''channel'' = zs @ news \<and> length zs = 2
     \<and> 0 \<le> M \<and> (M = 0 \<or> M \<in> numeric_ids B)
     \<and> map (\<lambda>c. get c ''id'') news = map (\<lambda>j. str (M + 1 + int j)) [0..<length news]"
    by blast
  then show ?thesis unfolding R_def B_def .
qed

section \<open>The ordering contract\<close>

lemma contract_fromI:
  assumes "\<And>a c b. xs = a @ c # b \<Longrightarrow> tag c = ''channel'' \<Longrightarrow> follows_contract (pre @ a) c b"
  shows "contract_from pre xs"
  using assms
proof (induction xs arbitrary: pre)
  case Nil
  show ?case by simp
next
  case (Cons x xs)
  have h: "tag x = ''channel'' \<longrightarrow> follows_contract pre x xs"
    using Cons.prems [of "[]" x xs] by simp
  have "contract_from (pre @ [x]) xs"
  proof (rule Cons.IH)
    fix a c b assume "xs = a @ c # b" "tag c = ''channel''"
    then show "follows_contract ((pre @ [x]) @ a) c b"
      using Cons.prems [of "x # a" c b] by simp
  qed
  with h show ?case by simp
qed

lemma interleave_Nil: "interleave pm [] = []"
  by (simp add: interleave_def)

lemma interleave_append: "interleave pm (xs @ ys) = interleave pm xs @ interleave pm ys"
  by (simp add: interleave_def)

lemma interleave_split:
  assumes ok: "programmes_ok pm"
  shows "interleave pm kept = a @ c # b \<Longrightarrow> tag c = ''channel'' \<Longrightarrow>
     \<exists>ka kb. kept = ka @ c # kb \<and> a = interleave pm ka
        \<and> b = programmes_of pm (get c ''id'') @ interleave pm kb"
proof (induction kept arbitrary: a)
  case Nil
  then show ?case by (simp add: interleave_Nil)
next
  case (Cons k ks)
  define t where "t = (if tag k = ''channel'' then programmes_of pm (get k ''id'') else [])"
  have blk: "interleave pm (k # ks) = k # t @ interleave pm ks"
    by (simp add: interleave_Cons t_def)
  have nt: "\<forall>p\<in>set t. tag p \<noteq> ''channel''"
    using programmes_ok_not_channel [OF ok, of "get k ''id''"] by (simp add: t_def)
  show ?case
  proof (cases a)
    case Nil
    with Cons.prems blk have "c = k" "b = t @ interleave pm ks" by simp_all
    with Cons.prems(2) Nil show ?thesis
      by (intro exI [of _ "[]"] exI [of _ ks]) (simp add: t_def interleave_Nil)
  next
    case (Cons x a')
    with Cons.prems(1) blk have x: "x = k" and eq: "t @ interleave pm ks = a' @ c # b"
      by simp_all
    from eq obtain us where
      "(t = a' @ us \<and> us @ interleave pm ks = c # b) \<or> (t @ us = a' \<and> interleave pm ks = us @ c # b)"
      by (auto simp: append_eq_append_conv2)
    then have "\<exists>vs. a' = t @ vs \<and> interleave pm ks = vs @ c # b"
    proof
      assume h: "t = a' @ us \<and> us @ interleave pm ks = c # b"
      show ?thesis
      proof (cases us)
        case Nil
        with h show ?thesis by simp
      next
        case (Cons u us')
        with h have "c \<in> set t" by simp
        with nt Cons.prems(2) show ?thesis by blast
      qed
    next
      assume "t @ us = a' \<and> interleave pm ks = us @ c # b"
      then show ?thesis by blast
    qed
    then obtain vs where vs: "a' = t @ vs" "interleave pm ks = vs @ c # b" by blast
    from Cons.IH [OF vs(2) Cons.prems(2)] obtain ka kb where
      k: "ks = ka @ c # kb" "vs = interleave pm ka"
         "b = programmes_of pm (get c ''id'') @ interleave pm kb"
      by blast
    have "a = interleave pm (k # ka)"
      by (simp add: Cons x vs(1) k(2) interleave_Cons t_def)
    with k show ?thesis
      by (intro exI [of _ "k # ka"] exI [of _ kb]) simp
  qed
qed

lemma interleave_member:
  assumes "p \<in> set (interleave pm xs)"
  shows "p \<in> set xs \<or> (\<exists>c\<in>set xs. tag c = ''channel'' \<and> p \<in> set (programmes_of pm (get c ''id'')))"
  using assms by (auto simp: interleave_def split: if_splits)

lemma interleave_head:
  assumes "\<forall>c\<in>set xs. tag c \<noteq> ''programme''"
  shows "interleave pm xs = [] \<or> tag (hd (interleave pm xs)) \<noteq> ''programme''"
  using assms by (cases xs) (auto simp: interleave_Cons interleave_Nil)

lemma takeWhile_block:
  assumes "\<forall>x\<in>set xs. P x" "ys = [] \<or> \<not> P (hd ys)"
  shows "takeWhile P (xs @ ys) = xs" "dropWhile P (xs @ ys) = ys"
proof -
  have t: "takeWhile P ys = []" and d: "dropWhile P ys = ys"
    using assms(2) by (cases ys; simp)+
  show "takeWhile P (xs @ ys) = xs"
    using assms(1) by (simp add: takeWhile_append2 t)
  show "dropWhile P (xs @ ys) = ys"
    using assms(1) by (simp add: dropWhile_append2 d)
qed

lemma channel_ids_append: "channel_ids (xs @ ys) = channel_ids xs @ channel_ids ys"
  by (simp add: channel_ids_def)

lemma channel_ids_member:
  assumes "c \<in> set xs" "tag c = ''channel''" "get c ''id'' = Some key" "key \<noteq> []"
  shows "key \<in> set (channel_ids xs)"
  using assms by (force simp: channel_ids_def)

lemma programmes_ok_memD:
  assumes "programmes_ok pm" "p \<in> set (programmes_of pm cid)"
  obtains key where "cid = Some key" "key \<noteq> []" "tag p = ''programme''" "get p ''channel'' = Some key"
proof -
  from assms(2) obtain key ps where k: "cid = Some key" "pm key = Some ps" "p \<in> set ps"
    by (rule programmes_of_memD)
  from assms(1) k(2) have "key \<noteq> []" by (auto simp: programmes_ok_def)
  moreover from assms(1) k(2,3) have "tag p = ''programme''" "get p ''channel'' = Some key"
    by (auto simp: programmes_ok_def list_all_iff)
  ultimately show ?thesis using k(1) by (intro that)
qed

lemma contract_interleave:
  assumes ok: "programmes_ok pm"
    and np: "\<forall>c\<in>set kept. tag c \<noteq> ''programme''"
    and dist: "distinct (channel_ids kept)"
  shows "contract_from [] (interleave pm kept)"
proof (rule contract_fromI)
  fix a c b
  assume dec: "interleave pm kept = a @ c # b" and ch: "tag c = ''channel''"
  from interleave_split [OF ok dec ch] obtain ka kb where
    k: "kept = ka @ c # kb" "a = interleave pm ka"
       "b = programmes_of pm (get c ''id'') @ interleave pm kb"
    by blast
  let ?P = "\<lambda>p. tag p = ''programme''"
  let ?ps = "programmes_of pm (get c ''id'')"
  have all: "\<forall>p\<in>set ?ps. ?P p"
    using ok by (auto elim: programmes_ok_memD)
  have hd: "interleave pm kb = [] \<or> \<not> ?P (hd (interleave pm kb))"
    using interleave_head [of kb pm] np k(1) by simp
  have tw: "takeWhile ?P b = ?ps" and dw: "dropWhile ?P b = interleave pm kb"
    unfolding k(3) using all hd by (rule takeWhile_block)+
  have one: "\<forall>p\<in>set (takeWhile ?P b). get p ''channel'' = get c ''id''"
    unfolding tw using ok by (auto elim: programmes_ok_memD)
  have two: "\<forall>p\<in>set a \<union> set (dropWhile ?P b). ?P p \<longrightarrow> get p ''channel'' \<noteq> get c ''id''"
  proof (intro ballI impI notI)
    fix p assume p: "p \<in> set a \<union> set (dropWhile ?P b)" "?P p" "get p ''channel'' = get c ''id''"
    from p(1) have "p \<in> set (interleave pm (ka @ kb))"
      by (simp add: dw k(2) interleave_append)
    from interleave_member [OF this] p(2) np k(1) obtain c' where
      c': "c' \<in> set (ka @ kb)" "tag c' = ''channel''" "p \<in> set (programmes_of pm (get c' ''id''))"
      by auto
    from ok c'(3) obtain key where key: "get c' ''id'' = Some key" "key \<noteq> []"
        "get p ''channel'' = Some key"
      by (rule programmes_ok_memD)
    have "key \<in> set (channel_ids (ka @ kb))"
      using c'(1,2) key(1,2) by (rule channel_ids_member)
    moreover have "key \<in> set (channel_ids [c])"
      using ch key p(3) by (intro channel_ids_member [of c]) simp_all
    moreover have "distinct (channel_ids ka @ channel_ids [c] @ channel_ids kb)"
      using dist by (simp add: k(1) channel_ids_append [symmetric])
    ultimately show False by (auto simp: channel_ids_append)
  qed
  from one two show "follows_contract ([] @ a) c b"
    by (simp add: follows_contract_def)
qed

section \<open>The contract in the tree written\<close>

lemma channel_ids_grown:
  "list_all2 grown xs ys \<Longrightarrow> channel_ids ys = channel_ids xs"
proof (induction rule: list_all2_induct)
  case Nil
  show ?case by simp
next
  case (Cons x xs y ys)
  have "tag y = tag x" "get y ''id'' = get x ''id''"
    using Cons.hyps(1) by (simp_all add: grown_def get_def)
  with Cons.IH show ?case
    by (simp add: channel_ids_def)
qed

lemma channel_ids_no_programmes:
  "channel_ids (filter (\<lambda>c. tag c \<noteq> ''programme'') xs) = channel_ids xs"
proof -
  have "filter (\<lambda>c. tag c = ''channel'') (filter (\<lambda>c. tag c \<noteq> ''programme'') xs) =
      filter (\<lambda>c. tag c = ''channel'') xs"
    by (auto intro: filter_cong)
  then show ?thesis by (simp add: channel_ids_def)
qed

lemma channel_ids_new:
  assumes "map (\<lambda>c. (tag c, get c ''id'')) news =
      map (\<lambda>j. (''channel'', Some (decimal (M + 1 + int j)))) [0..<length news]"
  shows "channel_ids news = map (\<lambda>j. decimal (M + 1 + int j)) [0..<length news]"
proof -
  let ?g = "\<lambda>i. case i of None \<Rightarrow> [] | Some cid \<Rightarrow> if cid = [] then [] else [cid]"
  have f: "filter (\<lambda>c. tag c = ''channel'') news = news"
    using new_channels_tags(1) [OF assms] by (simp add: filter_id_conv)
  have "channel_ids news = concat (map ?g (map (\<lambda>c. get c ''id'') news))"
    by (simp add: channel_ids_def f comp_def)
  also have "\<dots> = concat (map ?g (map (\<lambda>j. Some (decimal (M + 1 + int j))) [0..<length news]))"
    by (simp only: new_channels_tags(2) [OF assms])
  also have "\<dots> = concat (map (\<lambda>j. [decimal (M + 1 + int j)]) [0..<length news])"
    by (simp add: comp_def decimal_not_Nil)
  also have "\<dots> = map (\<lambda>j. decimal (M + 1 + int j)) [0..<length news]"
    by (induction "length news") simp_all
  finally show ?thesis .
qed

lemma decimal_inj:
  assumes "0 \<le> a" "0 \<le> b" "decimal a = decimal b"
  shows "a = b"
proof -
  from assms have e: "str_nat (nat a) = str_nat (nat b)"
    by (simp add: decimal_def)
  have "Some (nat a) = parse_nat (str_nat (nat a))"
    by (simp add: parse_nat_str_nat)
  also have "\<dots> = parse_nat (str_nat (nat b))"
    by (simp only: e)
  also have "\<dots> = Some (nat b)"
    by (simp add: parse_nat_str_nat)
  finally have "nat a = nat b" by simp
  with assms(1,2) show ?thesis by simp
qed

lemma list_all2_grown_not_tag:
  "list_all2 grown xs ys \<Longrightarrow> \<forall>c\<in>set xs. tag c \<noteq> t \<Longrightarrow> \<forall>c\<in>set ys. tag c \<noteq> t"
  by (induction rule: list_all2_induct) (simp_all add: grown_def)

lemma channel_ids_numeric:
  assumes "key \<in> set (channel_ids (children B))" "py_int key = Some v"
  shows "v \<in> numeric_ids B"
proof -
  from assms(1) obtain ch where "ch \<in> set (findall B ''channel'')"
      "get ch ''id'' = Some key" "key \<noteq> []"
    by (auto simp: channel_ids_def findall_def split: option.splits if_splits)
  with assms(2) show ?thesis
    unfolding numeric_ids_def by blast
qed

lemma kept_ids_distinct:
  assumes d: "distinct (channel_ids (children B))"
    and m: "0 \<le> M" "\<forall>v\<in>numeric_ids B. v \<le> M"
    and z: "list_all2 grown (filter (\<lambda>c. tag c \<noteq> ''programme'') (children B)) zs"
    and n: "map (\<lambda>c. (tag c, get c ''id'')) news =
      map (\<lambda>j. (''channel'', Some (decimal (M + 1 + int j)))) [0..<length news]"
    and ft: "\<forall>j<length news. str (M + 1 + int j) = Some (decimal (M + 1 + int j))"
  shows "distinct (channel_ids (zs @ news))"
proof -
  let ?new = "map (\<lambda>j. decimal (M + 1 + int j)) [0..<length news]"
  have a: "channel_ids zs = channel_ids (children B)"
    using channel_ids_grown [OF z] by (simp add: channel_ids_no_programmes)
  have b: "channel_ids news = ?new"
    using n by (rule channel_ids_new)
  have "inj_on (\<lambda>j. decimal (M + 1 + int j)) (set [0..<length news])"
  proof (rule inj_onI)
    fix i j assume "decimal (M + 1 + int i) = decimal (M + 1 + int j)"
    with m(1) have "M + 1 + int i = M + 1 + int j"
      by (intro decimal_inj) simp_all
    then show "i = j" by simp
  qed
  then have c: "distinct ?new"
    by (simp add: distinct_map)
  have e: "set (channel_ids (children B)) \<inter> set ?new = {}"
  proof (rule ccontr)
    assume "set (channel_ids (children B)) \<inter> set ?new \<noteq> {}"
    then obtain j where j: "decimal (M + 1 + int j) \<in> set (channel_ids (children B))"
        "j < length news"
      by auto
    have "py_int (decimal (M + 1 + int j)) = Some (M + 1 + int j)"
      using m(1) ft j(2) by (simp add: py_int_decimal)
    with j(1) have "M + 1 + int j \<in> numeric_ids B"
      by (rule channel_ids_numeric)
    with m(2) show False by auto
  qed
  show ?thesis
    unfolding channel_ids_append a b using d c e by simp
qed

text \<open>
  Claim C2, as amended. When the non-empty ids of the base document's channels are
  pairwise distinct, the tree written keeps the ordering contract: every channel is
  followed directly by programmes whose channel attribute is its id, up to the next child
  that is no programme, and no programme with that channel stands anywhere else; a
  channel with no programmes is followed by no programme.
\<close>

theorem ordering_contract_holds:
  assumes run: "merge_files iter fs d out (f # rest) = Inr (msgs, Some (out', R))"
    and doc: "fs f = Document B"
    and dist: "distinct (channel_ids (children B))"
  shows "ordering_contract R"
proof -
  let ?M = "max_id (ingest_base iter d B (init_state [Merging (f # rest) out]))"
  obtain st1 r1 zs news where s:
    "merge_loop iter fs d (Suc 0) rest
       (ingest_base iter d B (init_state [Merging (f # rest) out])) = Inr st1"
    "base_root st1 = Some r1"
    "R = set_children r1 (interleave (programmes_map st1) (children r1))"
    "programmes_ok (programmes_map st1)"
    "tag r1 = tag B" "attrib r1 = attrib (stamp_root d B)"
    "text_of r1 = text_of B" "tail r1 = tail B"
    "children r1 = zs @ news"
    "list_all2 grown (filter (\<lambda>c. tag c \<noteq> ''programme'') (children B)) zs"
    "map (\<lambda>c. (tag c, get c ''id'')) news =
       map (\<lambda>j. (''channel'', Some (decimal (?M + 1 + int j)))) [0..<length news]"
    "msgs = log st1 @ [MergeDone out]"
    "\<forall>j<length news. str
       (max_id (ingest_base iter d B (init_state [Merging (f # rest) out])) + 1 + int j) =
         Some (decimal
           (max_id (ingest_base iter d B (init_state [Merging (f # rest) out])) + 1 + int j))"
    by (rule merge_files_shape [OF run doc])
  note m = base_max [where iter = iter and d = d and B = B and msgs = "[Merging (f # rest) out]"]
  have ids: "distinct (channel_ids (zs @ news))"
    using dist m(1,3) s(10,11,13) by (rule kept_ids_distinct)
  have "\<forall>c\<in>set zs. tag c \<noteq> ''programme''"
    using s(10) by (rule list_all2_grown_not_tag) simp
  moreover have "\<forall>c\<in>set news. tag c \<noteq> ''programme''"
    using new_channels_tags(1) [OF s(11)] by simp
  ultimately have np: "\<forall>c\<in>set (zs @ news). tag c \<noteq> ''programme''"
    by auto
  have "contract_from [] (interleave (programmes_map st1) (zs @ news))"
    using s(4) np ids by (rule contract_interleave)
  then show ?thesis
    by (simp add: ordering_contract_def s(3) s(9) set_children_def)
qed

theorem ordering_contract_holds_witness:
  "ordering_contract
     (tv_out [channel_el ''1'' [''A''], programme_el ''1'' ''x'', programme_el ''1'' ''z'',
              channel_el ''2'' [''B''],
              channel_el ''3'' [''C''], programme_el ''3'' ''y''])"
proof -
  define B where "B = Element ''tv'' [] None None
      [programme_el ''1'' ''x'', channel_el ''1'' [''A''], channel_el ''2'' [''B'']]"
  define fs where "fs = (\<lambda>_. Missing)(''base.xml'' := Document B,
      ''second.xml'' := tv [channel_el ''8'' [''C''], programme_el ''8'' ''y'',
                            channel_el ''9'' [''A''], programme_el ''9'' ''z''])"
  define R where "R = tv_out [channel_el ''1'' [''A''], programme_el ''1'' ''x'',
      programme_el ''1'' ''z'', channel_el ''2'' [''B''],
      channel_el ''3'' [''C''], programme_el ''3'' ''y'']"
  have run: "merge_files remdups fs ''20240101000000'' ''out/out.xml'' [''base.xml'', ''second.xml'']
      = Inr ([Merging [''base.xml'', ''second.xml''] ''out/out.xml'', MergeDone ''out/out.xml''],
             Some (''out/out.xml'', R))"
    unfolding fs_def B_def R_def by code_simp
  have doc: "fs ''base.xml'' = Document B" by (simp add: fs_def)
  have dist: "distinct (channel_ids (children B))"
    unfolding B_def by code_simp
  from ordering_contract_holds [OF run doc dist] show ?thesis
    unfolding R_def .
qed

text \<open>
  Claim C2 as stated holds for every channel of every output. Here two channels of the
  base document share the id 1: the programme of channel 1 is written after each of
  them, so for the first channel a programme with its id stands further on, behind the
  second channel.
\<close>

theorem duplicate_ids_break_contract:
  "merge_files remdups
     ((\<lambda>_. Missing)
        (''base.xml'' := tv [channel_el ''1'' [''A''], channel_el ''1'' [''B''],
                             programme_el ''1'' ''x'']))
     ''20240101000000'' ''out/out.xml'' [''base.xml'']
   = Inr ([Merging [''base.xml''] ''out/out.xml'', MergeDone ''out/out.xml''],
          Some (''out/out.xml'',
            tv_out [channel_el ''1'' [''A''], programme_el ''1'' ''x'',
                    channel_el ''1'' [''B''], programme_el ''1'' ''x'']))
   \<and> \<not> ordering_contract
          (tv_out [channel_el ''1'' [''A''], programme_el ''1'' ''x'',
                   channel_el ''1'' [''B''], programme_el ''1'' ''x''])"
  by code_simp

section \<open>The name index\<close>

lemma strip_strip: "strip (strip s) = strip s"
proof (cases "strip s = []")
  case True
  have "strip [] = []" by (simp add: strip_def)
  then show ?thesis unfolding True .
next
  case False
  with strip_ends [of s] show ?thesis by (intro strip_id) simp_all
qed

lemma name_texts_stripped: "n \<in> set (name_texts ch) \<Longrightarrow> strip n = n"
  by (auto simp: set_name_texts strip_strip)

lemma index_names_apply:
  "index_names k names m n = (if n \<in> set names then Some k else m n)"
  unfolding index_names_def by (induction names arbitrary: m) simp_all

lemma find_target_None: "find_target nm ns = None \<longleftrightarrow> (\<forall>n\<in>set ns. nm n = None)"
  by (induction ns) (auto split: option.splits)

lemma name_texts_set_attr: "name_texts (set_attr ch k v) = name_texts ch"
  by (simp add: name_texts_def findall_def set_attr_def)

lemma name_texts_append:
  "name_texts (append t (display_name n)) = name_texts t @ (if n = [] then [] else [strip n])"
  by (simp add: name_texts_def findall_def append_def display_name_def)

lemma name_texts_add_names:
  "set (name_texts (add_names ns t)) \<subseteq> set (name_texts t) \<union> strip ` set ns"
  unfolding add_names_def
proof (induction ns arbitrary: t)
  case Nil
  show ?case by simp
next
  case (Cons n ns)
  from Cons [of "append t (display_name n)"] show ?case
    by (auto simp: name_texts_append split: if_splits)
qed

lemma tag_add_names: "tag (add_names ns t) = tag t"
  using grown_add_names [of t ns] by (simp add: grown_def)

lemma filter_update_channel:
  assumes "\<And>c. tag (f c) = tag c"
  shows "filter (\<lambda>c. tag c = ''channel'') (update_channel k f xs) =
     (filter (\<lambda>c. tag c = ''channel'') xs)[k := f (filter (\<lambda>c. tag c = ''channel'') xs ! k)]"
proof (induction xs arbitrary: k)
  case Nil
  show ?case by simp
next
  case (Cons x xs)
  show ?case
  proof (cases "tag x = ''channel''")
    case False
    with Cons show ?thesis by simp
  next
    case True
    with Cons assms show ?thesis by (cases k) simp_all
  qed
qed

lemma names_unique_indexed:
  assumes "\<forall>k<length cs. \<forall>n\<in>set (name_texts (cs ! k)). f n = Some (k + off)"
  shows "names_unique cs"
  using assms
proof (induction cs arbitrary: off)
  case Nil
  show ?case by simp
next
  case (Cons c cs)
  have h: "\<forall>n\<in>set (name_texts c). f n = Some off"
    using Cons.prems by force
  have t: "\<forall>k<length cs. \<forall>n\<in>set (name_texts (cs ! k)). f n = Some (k + Suc off)"
    using Cons.prems by force
  have "\<forall>c'\<in>set cs. set (name_texts c) \<inter> set (name_texts c') = {}"
  proof (intro ballI)
    fix c' assume "c' \<in> set cs"
    then obtain k where k: "k < length cs" "cs ! k = c'"
      by (auto simp: in_set_conv_nth)
    show "set (name_texts c) \<inter> set (name_texts c') = {}"
    proof (rule ccontr)
      assume "set (name_texts c) \<inter> set (name_texts c') \<noteq> {}"
      then obtain n where n: "n \<in> set (name_texts c)" "n \<in> set (name_texts c')" by blast
      from h n(1) have "f n = Some off" by simp
      moreover from t k n(2) have "f n = Some (k + Suc off)" by blast
      ultimately show False by simp
    qed
  qed
  with Cons.IH [OF t] show ?case by simp
qed

lemma indexed_names_unique:
  assumes "indexed st" "base_root st = Some r"
  shows "names_unique (findall r ''channel'')"
  using assms names_unique_indexed [of "findall r ''channel''" "name_map st" 0]
  by (auto simp: indexed_def)

section \<open>The index under one incoming channel\<close>

lemma names_valid:
  assumes "valid_order iter"
  shows "set (get_all_names iter ch) = set (name_texts ch)"
  using assms by (simp add: get_all_names_def valid_order_def)

lemma deref_Some:
  "deref r k = Some t \<longleftrightarrow> k < length (findall r ''channel'') \<and> t = findall r ''channel'' ! k"
  by (auto simp: deref_def Let_def)

lemma find_target_Some:
  "find_target nm ns = Some k \<Longrightarrow> \<exists>n\<in>set ns. nm n = Some k"
  by (induction ns) (auto split: option.splits)

lemma indexed_merge_channel:
  assumes vo: "valid_order iter" and ix: "indexed st" and t: "tag ch = ''channel''"
    and un: "unambiguous iter ch st" and run: "merge_channel iter ch st = Inr st'"
  shows "indexed st'"
proof -
  let ?N = "get_all_names iter ch"
  from ix obtain r where r: "base_root st = Some r"
    and J: "\<And>k n. k < length (findall r ''channel'') \<Longrightarrow>
              n \<in> set (name_texts (findall r ''channel'' ! k)) \<Longrightarrow> name_map st n = Some k"
    unfolding indexed_def by blast
  let ?chs = "findall r ''channel''"
  from run show ?thesis
  proof (cases rule: merge_channel_InrE)
    case skip
    with ix show ?thesis by simp
  next
    case (new root)
    have root: "root = r" using new(3) r by simp
    let ?ch = "set_attr ch ''id'' (decimal (max_id st + 1))"
    have none: "\<And>n. n \<in> set ?N \<Longrightarrow> name_map st n = None"
      using new(2) by (simp add: find_target_None)
    have chs': "findall (append r ?ch) ''channel'' = ?chs @ [?ch]"
      using t by (simp add: findall_def append_def set_attr_def)
    have nm': "\<And>n. name_map st' n = (if n \<in> set ?N then Some (length ?chs) else name_map st n)"
      by (simp add: new(4) root index_names_apply)
    have "\<forall>k<length (?chs @ [?ch]). \<forall>n\<in>set (name_texts ((?chs @ [?ch]) ! k)).
        name_map st' n = Some k"
    proof (intro allI impI ballI)
      fix k n assume k: "k < length (?chs @ [?ch])"
        and n: "n \<in> set (name_texts ((?chs @ [?ch]) ! k))"
      show "name_map st' n = Some k"
      proof (cases "k < length ?chs")
        case True
        with n have "name_map st n = Some k" by (simp add: nth_append J)
        moreover from this none [of n] have "n \<notin> set ?N" by auto
        ultimately show ?thesis by (simp add: nm')
      next
        case False
        with k have e: "k = length ?chs" by simp
        with n have "n \<in> set (name_texts ch)" by (simp add: name_texts_set_attr)
        then have "n \<in> set ?N" by (simp add: names_valid [OF vo])
        then show ?thesis by (simp add: nm' e)
      qed
    qed
    moreover have "base_root st' = Some (append r ?ch)"
      by (simp add: new(4) root)
    ultimately show ?thesis
      unfolding indexed_def chs' [symmetric] by blast
  next
    case (merge k0 root target_ch)
    have root: "root = r" using merge(3) r by simp
    let ?fresh = "fresh_names iter ch target_ch"
    let ?t = "add_names ?fresh target_ch"
    have k0: "k0 < length ?chs" "target_ch = ?chs ! k0"
      using merge(4) by (simp_all add: root deref_Some)
    let ?r = "set_children r (update_channel k0 (add_names ?fresh) (children r))"
    have chs': "findall ?r ''channel'' = ?chs[k0 := ?t]"
      using filter_update_channel [of "add_names ?fresh" k0 "children r"] k0(2)
      by (simp add: findall_def set_children_def tag_add_names)
    have nm': "\<And>n. name_map st' n = (if n \<in> set ?fresh then Some k0 else name_map st n)"
      by (simp add: merge(5) index_names_apply)
    have fr: "set ?fresh \<subseteq> set ?N"
      by (auto simp: fresh_names_def Let_def)
    have amb: "\<And>n. n \<in> set ?N \<Longrightarrow> name_map st n = None \<or> name_map st n = Some k0"
      using un merge(2) by (simp add: unambiguous_def)
    have "\<forall>k<length (?chs[k0 := ?t]). \<forall>n\<in>set (name_texts (?chs[k0 := ?t] ! k)).
        name_map st' n = Some k"
    proof (intro allI impI ballI)
      fix k n assume k: "k < length (?chs[k0 := ?t])"
        and n: "n \<in> set (name_texts (?chs[k0 := ?t] ! k))"
      show "name_map st' n = Some k"
      proof (cases "k = k0")
        case False
        with k n have old: "name_map st n = Some k" by (simp add: J)
        have "n \<notin> set ?fresh"
        proof
          assume "n \<in> set ?fresh"
          with fr amb [of n] old False show False by auto
        qed
        with old show ?thesis by (simp add: nm')
      next
        case True
        with k n have "n \<in> set (name_texts ?t)" by simp
        with name_texts_add_names [of ?fresh target_ch]
        have "n \<in> set (name_texts target_ch) \<or> n \<in> strip ` set ?fresh" by auto
        then show ?thesis
        proof
          assume "n \<in> set (name_texts target_ch)"
          then have "name_map st n = Some k0" using k0 by (simp add: J)
          then show ?thesis by (simp add: nm' True)
        next
          assume "n \<in> strip ` set ?fresh"
          then obtain m where m: "m \<in> set ?fresh" "n = strip m" by blast
          with fr have "m \<in> set (name_texts ch)" by (auto simp: names_valid [OF vo])
          then have "strip m = m" by (rule name_texts_stripped)
          with m show ?thesis by (simp add: nm' True)
        qed
      qed
    qed
    moreover have "base_root st' = Some ?r"
      by (simp add: merge(5) root)
    ultimately show ?thesis
      unfolding indexed_def chs' [symmetric] by blast
  qed
qed

section \<open>Unique names in the tree written\<close>

lemma ingest_channel_name_map:
  "name_map (ingest_channel iter k ch st) n =
     (if (\<exists>cid. get ch ''id'' = Some cid \<and> cid \<noteq> []) \<and> n \<in> set (get_all_names iter ch)
      then Some k else name_map st n)"
  by (auto simp: ingest_channel_def index_names_apply split: option.splits)

lemma ingest_channels_other:
  "\<forall>ch\<in>set chs. n \<notin> set (get_all_names iter ch)
     \<Longrightarrow> name_map (ingest_channels iter k chs st) n = name_map st n"
  by (induction chs arbitrary: k st) (simp_all add: ingest_channel_name_map)

lemma ingest_channels_indexed:
  assumes vo: "valid_order iter"
  shows "names_unique chs
     \<Longrightarrow> \<forall>ch\<in>set chs. name_texts ch = [] \<or> (\<exists>cid. get ch ''id'' = Some cid \<and> cid \<noteq> [])
     \<Longrightarrow> \<forall>j<length chs. \<forall>n\<in>set (name_texts (chs ! j)).
           name_map (ingest_channels iter k chs st) n = Some (k + j)"
proof (induction chs arbitrary: k st)
  case Nil
  show ?case by simp
next
  case (Cons ch chs)
  let ?s = "ingest_channel iter k ch st"
  have u: "names_unique chs"
    and dj: "\<forall>c'\<in>set chs. set (name_texts ch) \<inter> set (name_texts c') = {}"
    using Cons.prems(1) by simp_all
  have ids: "\<forall>c\<in>set chs. name_texts c = [] \<or> (\<exists>cid. get c ''id'' = Some cid \<and> cid \<noteq> [])"
    using Cons.prems(2) by simp
  note ih = Cons.IH [OF u ids, where k = "Suc k" and st = ?s]
  show ?case
  proof (intro allI impI ballI)
    fix j n assume j: "j < length (ch # chs)" and n: "n \<in> set (name_texts ((ch # chs) ! j))"
    show "name_map (ingest_channels iter k (ch # chs) st) n = Some (k + j)"
    proof (cases j)
      case 0
      with n have n0: "n \<in> set (name_texts ch)" by simp
      then have "name_texts ch \<noteq> []" by auto
      with Cons.prems(2) have "\<exists>cid. get ch ''id'' = Some cid \<and> cid \<noteq> []" by simp
      with n0 have a: "name_map ?s n = Some k"
        by (simp add: ingest_channel_name_map names_valid [OF vo])
      have "\<forall>c\<in>set chs. n \<notin> set (get_all_names iter c)"
        using dj n0 by (auto simp: names_valid [OF vo])
      then have "name_map (ingest_channels iter (Suc k) chs ?s) n = name_map ?s n"
        by (rule ingest_channels_other)
      with a 0 show ?thesis by simp
    next
      case (Suc j')
      with j n ih show ?thesis by simp
    qed
  qed
qed

lemma findall_remove_programmes:
  "findall (remove_programmes r) ''channel'' = findall r ''channel''"
  by (auto simp: findall_def remove_programmes_def set_children_def intro: filter_cong)

lemma indexed_ingest_base:
  assumes "valid_order iter" "base_clean B"
  shows "indexed (ingest_base iter d B st)"
proof -
  let ?r = "remove_programmes (stamp_root d B)"
  have a: "base_root (ingest_base iter d B st) = Some ?r"
    by (simp add: ingest_base_def Let_def)
  have b: "findall ?r ''channel'' = findall B ''channel''"
    by (simp add: findall_remove_programmes findall_stamp_root)
  have c: "name_map (ingest_base iter d B st) =
      name_map (ingest_channels iter 0 (findall B ''channel'') st)"
    by (simp add: ingest_base_def Let_def findall_stamp_root)
  have ids: "\<forall>ch\<in>set (findall B ''channel'').
      name_texts ch = [] \<or> (\<exists>cid. get ch ''id'' = Some cid \<and> cid \<noteq> [])"
  proof
    fix ch assume "ch \<in> set (findall B ''channel'')"
    with assms(2) have "name_texts ch = [] \<or>
        (case get ch ''id'' of None \<Rightarrow> False | Some cid \<Rightarrow> cid \<noteq> [])"
      by (simp add: base_clean_def)
    then show "name_texts ch = [] \<or> (\<exists>cid. get ch ''id'' = Some cid \<and> cid \<noteq> [])"
      by (cases "get ch ''id''") simp_all
  qed
  have u: "names_unique (findall B ''channel'')"
    using assms(2) by (simp add: base_clean_def)
  have h: "\<forall>j<length (findall B ''channel''). \<forall>n\<in>set (name_texts (findall B ''channel'' ! j)).
      name_map (ingest_channels iter 0 (findall B ''channel'') st) n = Some (0 + j)"
    using assms(1) u ids by (rule ingest_channels_indexed)
  show ?thesis
    unfolding indexed_def
  proof (intro exI conjI)
    show "base_root (ingest_base iter d B st) = Some ?r" by (rule a)
    show "\<forall>k<length (findall ?r ''channel''). \<forall>n\<in>set (name_texts (findall ?r ''channel'' ! k)).
        name_map (ingest_base iter d B st) n = Some k"
      unfolding b c using h by simp
  qed
qed

lemma indexed_frame:
  assumes "indexed st" "base_root st' = base_root st" "name_map st' = name_map st"
  shows "indexed st'"
  using assms unfolding indexed_def by simp

lemma indexed_merge_channels:
  assumes vo: "valid_order iter"
  shows "indexed st \<Longrightarrow> \<forall>ch\<in>set chs. tag ch = ''channel''
     \<Longrightarrow> unambiguous_channels iter chs st \<Longrightarrow> merge_channels iter chs st = Inr st'
     \<Longrightarrow> indexed st'"
proof (induction chs arbitrary: st)
  case Nil
  then show ?case by simp
next
  case (Cons ch chs)
  from Cons.prems(4) obtain s1 where s1: "merge_channel iter ch st = Inr s1"
      "merge_channels iter chs s1 = Inr st'"
    by (auto split: sum.splits)
  from Cons.prems(3) s1(1) have un: "unambiguous iter ch st" "unambiguous_channels iter chs s1"
    by simp_all
  have "indexed s1"
    using vo Cons.prems(1) _ un(1) s1(1) by (rule indexed_merge_channel) (use Cons.prems(2) in simp)
  then show ?case
    using _ un(2) s1(2) by (rule Cons.IH) (use Cons.prems(2) in simp)
qed

lemma indexed_merge_loop:
  assumes vo: "valid_order iter"
  shows "indexed st \<Longrightarrow> unambiguous_loop iter fs d (Suc idx) files st
     \<Longrightarrow> merge_loop iter fs d (Suc idx) files st = Inr st' \<Longrightarrow> indexed st'"
proof (induction files arbitrary: st idx)
  case Nil
  then show ?case by simp
next
  case (Cons f rest)
  obtain msgs tree where pt: "parse_tree fs f = (msgs, tree)"
    by (cases "parse_tree fs f")
  let ?st = "st\<lparr>log := log st @ msgs\<rparr>"
  have i1: "indexed ?st"
    using Cons.prems(1) by (rule indexed_frame) simp_all
  show ?case
  proof (cases tree)
    case None
    with Cons.prems(2,3) pt have "unambiguous_loop iter fs d (Suc (Suc idx)) rest ?st"
        "merge_loop iter fs d (Suc (Suc idx)) rest ?st = Inr st'"
      by simp_all
    with i1 show ?thesis by (rule Cons.IH)
  next
    case (Some root)
    with Cons.prems(3) pt obtain s1 where
      s1: "merge_document iter root ?st = Inr s1"
      and rest: "merge_loop iter fs d (Suc (Suc idx)) rest s1 = Inr st'"
      by (auto split: sum.splits)
    from Cons.prems(2) pt Some s1 have
      un: "unambiguous_channels iter (findall root ''channel'') ?st"
        "unambiguous_loop iter fs d (Suc (Suc idx)) rest s1"
      by simp_all
    from s1 obtain s0 where s0: "merge_channels iter (findall root ''channel'') ?st = Inr s0"
      and e: "s1 = remap_programmes (findall root ''programme'') s0"
      by (auto simp: merge_document_def split: sum.splits)
    have "indexed s0"
      using vo i1 _ un(1) s0 by (rule indexed_merge_channels) (simp add: findall_def)
    then have "indexed s1"
      unfolding e by (rule indexed_frame) (simp_all add: remap_programmes_frame)
    then show ?thesis using un(2) rest by (rule Cons.IH)
  qed
qed

text \<open>
  Claim C5, as amended. No name is carried by two channels of the tree written, provided
  the base document is clean (no two of its channels share a name, and each of its named
  channels has an id) and no incoming channel is ambiguous, that is, has names the index
  holds for two different channels.
\<close>

theorem names_stay_unique:
  assumes vo: "valid_order iter"
    and run: "merge_files iter fs d out (f # rest) = Inr (msgs, Some (out', R))"
    and doc: "fs f = Document B"
    and clean: "base_clean B"
    and un: "unambiguous_merge iter fs d out (f # rest)"
  shows "names_unique (findall R ''channel'')"
proof -
  let ?st0 = "ingest_base iter d B (init_state [Merging (f # rest) out])"
  obtain st1 r1 zs news where s:
    "merge_loop iter fs d (Suc 0) rest ?st0 = Inr st1"
    "base_root st1 = Some r1"
    "R = set_children r1 (interleave (programmes_map st1) (children r1))"
    "programmes_ok (programmes_map st1)"
    "tag r1 = tag B" "attrib r1 = attrib (stamp_root d B)"
    "text_of r1 = text_of B" "tail r1 = tail B"
    "children r1 = zs @ news"
    "list_all2 grown (filter (\<lambda>c. tag c \<noteq> ''programme'') (children B)) zs"
    "map (\<lambda>c. (tag c, get c ''id'')) news =
       map (\<lambda>j. (''channel'', Some (decimal (max_id ?st0 + 1 + int j)))) [0..<length news]"
    "msgs = log st1 @ [MergeDone out]"
    "\<forall>j<length news. str
       (max_id (ingest_base iter d B (init_state [Merging (f # rest) out])) + 1 + int j) =
         Some (decimal
           (max_id (ingest_base iter d B (init_state [Merging (f # rest) out])) + 1 + int j))"
    by (rule merge_files_shape [OF run doc])
  have u: "unambiguous_loop iter fs d (Suc 0) rest ?st0"
    using un doc by (simp add: unambiguous_merge_def parse_tree_def)
  have "indexed ?st0"
    using vo clean by (rule indexed_ingest_base)
  then have "indexed st1"
    using u s(1) by (rule indexed_merge_loop [OF vo])
  then have "names_unique (findall r1 ''channel'')"
    using s(2) by (rule indexed_names_unique)
  moreover have "findall R ''channel'' = findall r1 ''channel''"
    by (simp add: s(3) findall_def set_children_def interleave_channels [OF s(4)])
  ultimately show ?thesis by simp
qed

theorem names_stay_unique_witness:
  "names_unique (findall (tv_out [channel_el ''5'' [''HBO'', ''HBO2'', ''Cinemax'']]) ''channel'')"
proof -
  define B where "B = Element ''tv'' [] None None [channel_el ''5'' [''HBO'', ''HBO2'']]"
  define fs where "fs = (\<lambda>_. Missing)(''base.xml'' := Document B,
      ''second.xml'' := tv [channel_el ''2'' [''HBO2'', ''Cinemax'']])"
  define R where "R = tv_out [channel_el ''5'' [''HBO'', ''HBO2'', ''Cinemax'']]"
  have run: "merge_files remdups fs ''20240101000000'' ''out/out.xml'' [''base.xml'', ''second.xml'']
      = Inr ([Merging [''base.xml'', ''second.xml''] ''out/out.xml'', MergeDone ''out/out.xml''],
             Some (''out/out.xml'', R))"
    unfolding fs_def B_def R_def by code_simp
  have doc: "fs ''base.xml'' = Document B" by (simp add: fs_def)
  have clean: "base_clean B"
    unfolding B_def by code_simp
  have un: "unambiguous_merge remdups fs ''20240101000000'' ''out/out.xml'' [''base.xml'', ''second.xml'']"
    unfolding fs_def B_def by code_simp
  from names_stay_unique [OF valid_order_remdups run doc clean un] show ?thesis
    unfolding R_def .
qed

text \<open>
  Claim C5 as stated holds for every pair of inputs. In the first two runs the base
  document has a channel named A and a channel named B, and the second input a channel
  named A and B. Whichever of the two names the set yields first, the other name is
  appended to the channel picked and stays on the channel that had it: two channels carry
  it. In the third run two channels of the base document are both named A; they are
  indexed one after the other and never compared, so both are written with that name. In
  the fourth run the channel of the base document named K has no id, so it is kept in
  the tree but not indexed, and the channel named K of the second input is appended
  beside it. No incoming channel is ambiguous in the last two runs: each of the two
  conditions on the base document is needed by itself.
\<close>

theorem provisos_are_needed:
  "merge_files remdups
     ((\<lambda>_. Missing)
        (''base.xml'' := tv [channel_el ''1'' [''A''], channel_el ''2'' [''B'']],
         ''second.xml'' := tv [channel_el ''7'' [''A'', ''B'']]))
     ''20240101000000'' ''out/out.xml'' [''base.xml'', ''second.xml'']
   = Inr ([Merging [''base.xml'', ''second.xml''] ''out/out.xml'', MergeDone ''out/out.xml''],
          Some (''out/out.xml'', tv_out [channel_el ''1'' [''A'', ''B''], channel_el ''2'' [''B'']]))
   \<and> \<not> names_unique
         (findall (tv_out [channel_el ''1'' [''A'', ''B''], channel_el ''2'' [''B'']]) ''channel'')
   \<and> merge_files (\<lambda>xs. rev (remdups xs))
     ((\<lambda>_. Missing)
        (''base.xml'' := tv [channel_el ''1'' [''A''], channel_el ''2'' [''B'']],
         ''second.xml'' := tv [channel_el ''7'' [''A'', ''B'']]))
     ''20240101000000'' ''out/out.xml'' [''base.xml'', ''second.xml'']
   = Inr ([Merging [''base.xml'', ''second.xml''] ''out/out.xml'', MergeDone ''out/out.xml''],
          Some (''out/out.xml'', tv_out [channel_el ''1'' [''A''], channel_el ''2'' [''B'', ''A'']]))
   \<and> \<not> names_unique
         (findall (tv_out [channel_el ''1'' [''A''], channel_el ''2'' [''B'', ''A'']]) ''channel'')
   \<and> merge_files remdups
     ((\<lambda>_. Missing)
        (''base.xml'' := tv [channel_el ''1'' [''A''], channel_el ''2'' [''A'']],
         ''second.xml'' := tv [channel_el ''9'' [''A'', ''C'']]))
     ''20240101000000'' ''out/out.xml'' [''base.xml'', ''second.xml'']
   = Inr ([Merging [''base.xml'', ''second.xml''] ''out/out.xml'', MergeDone ''out/out.xml''],
          Some (''out/out.xml'', tv_out [channel_el ''1'' [''A''], channel_el ''2'' [''A'', ''C'']]))
   \<and> unambiguous_merge remdups
     ((\<lambda>_. Missing)
        (''base.xml'' := tv [channel_el ''1'' [''A''], channel_el ''2'' [''A'']],
         ''second.xml'' := tv [channel_el ''9'' [''A'', ''C'']]))
     ''20240101000000'' ''out/out.xml'' [''base.xml'', ''second.xml'']
   \<and> \<not> names_unique
         (findall (tv_out [channel_el ''1'' [''A''], channel_el ''2'' [''A'', ''C'']]) ''channel'')
   \<and> merge_files remdups
     ((\<lambda>_. Missing)
        (''base.xml'' := tv [Element ''channel'' [] None None
                               [Element ''display-name'' [] (Some ''K'') None []]],
         ''second.xml'' := tv [channel_el ''9'' [''K'']]))
     ''20240101000000'' ''out/out.xml'' [''base.xml'', ''second.xml'']
   = Inr ([Merging [''base.xml'', ''second.xml''] ''out/out.xml'', MergeDone ''out/out.xml''],
          Some (''out/out.xml'',
            tv_out [Element ''channel'' [] None None
                      [Element ''display-name'' [] (Some ''K'') None []],
                    channel_el ''1'' [''K'']]))
   \<and> unambiguous_merge remdups
     ((\<lambda>_. Missing)
        (''base.xml'' := tv [Element ''channel'' [] None None
                               [Element ''display-name'' [] (Some ''K'') None []]],
         ''second.xml'' := tv [channel_el ''9'' [''K'']]))
     ''20240101000000'' ''out/out.xml'' [''base.xml'', ''second.xml'']
   \<and> \<not> names_unique
         (findall (tv_out [Element ''channel'' [] None None
                      [Element ''display-name'' [] (Some ''K'') None []],
                    channel_el ''1'' [''K'']]) ''channel'')"
  by code_simp

end
